theory Spec2Isabelle
  imports Main
begin

section \<open>The booking wizard of the Booking page\<close>

text \<open>
  The Booking component keeps three pieces of React state: the index \<open>step\<close> into
  \<open>STEPS\<close>, the draft \<open>booking\<close>, and the flag \<open>isSubmitted\<close>. A JavaScript
  \<open>number\<close> is modelled as an unbounded integer (durations come from \<open>parseInt\<close> of
  the select values, prices are whole currency units), a \<open>Date\<close> as its time value in
  milliseconds since the epoch, and \<open>Date | undefined\<close> as an option.
\<close>

definition STEPS :: "string list" where
  "STEPS = [''selectCar'', ''enterLocation'', ''selectDateTime'', ''confirm'']"

record BookingData =
  carId :: string
  pickupLocation :: string
  dropoffLocation :: string
  date :: "int option"
  time :: string
  duration :: int

text \<open>
  A catalog entry, with the properties the page reads: \<open>id\<close>, \<open>name\<close> and \<open>type\<close>
  (renamed here), \<open>seats\<close>, \<open>pricePerHour\<close> and \<open>image\<close>.
\<close>

record Car =
  car_id :: string
  car_name :: string
  car_type :: string
  seats :: int
  pricePerHour :: int
  image :: string

record state =
  step :: nat
  booking :: BookingData
  isSubmitted :: bool

text \<open>
  The module \<open>@/data/cars\<close> is not among the sources, so its \<open>getCarById\<close> is a
  parameter of the functions that call it: a lookup from identifiers to vehicles, with
  \<open>None\<close> for \<open>undefined\<close>.
\<close>

type_synonym catalog = "string \<rightharpoonup> Car"

text \<open>\<open>useState\<close> initial values; \<open>car\<close> is \<open>searchParams.get('car')\<close>.\<close>

definition initialBooking :: "string option \<Rightarrow> BookingData" where
  "initialBooking car =
     \<lparr>carId = (case car of None \<Rightarrow> [] | Some c \<Rightarrow> c),
      pickupLocation = [], dropoffLocation = [], date = None, time = [], duration = 1\<rparr>"

definition initialState :: "string option \<Rightarrow> state" where
  "initialState car = \<lparr>step = 0, booking = initialBooking car, isSubmitted = False\<rparr>"

definition selectedCar :: "catalog \<Rightarrow> state \<Rightarrow> Car option" where
  "selectedCar getCarById st =
     (if carId (booking st) \<noteq> [] then getCarById (carId (booking st)) else None)"

definition calculatePrice :: "catalog \<Rightarrow> state \<Rightarrow> int" where
  "calculatePrice getCarById st =
     (case selectedCar getCarById st of
        None \<Rightarrow> 0
      | Some c \<Rightarrow> pricePerHour c * duration (booking st))"

text \<open>\<open>!!s\<close> on a string is \<open>s \<noteq> ''\<close>; \<open>!!d\<close> on \<open>Date | undefined\<close> is \<open>d \<noteq> undefined\<close>.\<close>

definition canProceed :: "state \<Rightarrow> bool" where
  "canProceed st =
     (if step st = 0 then carId (booking st) \<noteq> []
      else if step st = 1 then
        pickupLocation (booking st) \<noteq> [] \<and> dropoffLocation (booking st) \<noteq> []
      else if step st = 2 then
        date (booking st) \<noteq> None \<and> time (booking st) \<noteq> [] \<and> 0 < duration (booking st)
      else True)"

subsection \<open>The navigation buttons\<close>

text \<open>
  Once \<open>isSubmitted\<close> holds the component returns the success page, which has no
  navigation. Otherwise the previous button is rendered when \<open>step > 0\<close>, and the next
  button when \<open>step < STEPS.length - 1\<close>, disabled unless \<open>canProceed()\<close>; at the last
  step the confirm button takes its place. A click on a button that is absent or
  disabled is \<open>None\<close>.
\<close>

definition previousShown :: "state \<Rightarrow> bool" where
  "previousShown st = (\<not> isSubmitted st \<and> 0 < step st)"

definition clickPrevious :: "state \<Rightarrow> state option" where
  "clickPrevious st =
     (if previousShown st then Some (st\<lparr>step := step st - 1\<rparr>) else None)"

definition nextShown :: "state \<Rightarrow> bool" where
  "nextShown st = (\<not> isSubmitted st \<and> step st < length STEPS - 1)"

definition clickNext :: "state \<Rightarrow> state option" where
  "clickNext st =
     (if nextShown st \<and> canProceed st then Some (st\<lparr>step := step st + 1\<rparr>) else None)"

definition confirmShown :: "state \<Rightarrow> bool" where
  "confirmShown st = (\<not> isSubmitted st \<and> \<not> step st < length STEPS - 1)"

subsection \<open>The field setters\<close>



section \<open>Platform functions used by the page\<close>

subsection \<open>\<open>Date.prototype.toISOString\<close>\<close>

text \<open>
  The time value is split into days since the epoch and milliseconds within the day;
  the days are turned into a proleptic Gregorian date. Years 0 to 9999 print with four
  digits, other years with a sign and six digits.
\<close>

definition digit_char :: "nat \<Rightarrow> char" where
  "digit_char n = char_of (48 + n)"

fun digits_of :: "nat \<Rightarrow> string" where
  "digits_of n = (if n < 10 then [digit_char n] else digits_of (n div 10) @ [digit_char (n mod 10)])"

declare digits_of.simps [simp del]

definition padStart :: "nat \<Rightarrow> nat \<Rightarrow> string" where
  "padStart w n = replicate (w - length (digits_of n)) (CHR ''0'') @ digits_of n"

definition civil_from_days :: "int \<Rightarrow> int \<times> int \<times> int" where
  "civil_from_days days =
     (let z = days + 719468;
          era = z div 146097;
          doe = z mod 146097;
          yoe = (doe - doe div 1460 + doe div 36524 - doe div 146096) div 365;
          y = yoe + era * 400;
          doy = doe - (365 * yoe + yoe div 4 - yoe div 100);
          mp = (5 * doy + 2) div 153;
          d = doy - (153 * mp + 2) div 5 + 1;
          m = (if mp < 10 then mp + 3 else mp - 9)
      in (if m \<le> 2 then y + 1 else y, m, d))"

definition year_string :: "int \<Rightarrow> string" where
  "year_string y =
     (if 0 \<le> y \<and> y \<le> 9999 then padStart 4 (nat y)
      else (if y < 0 then ''-'' else ''+'') @ padStart 6 (nat \<bar>y\<bar>))"

definition toISOString :: "int \<Rightarrow> string" where
  "toISOString t =
     (let ms = t mod 86400000;
          (y, m, d) = civil_from_days (t div 86400000)
      in year_string y @ ''-'' @ padStart 2 (nat m) @ ''-'' @ padStart 2 (nat d) @ ''T''
         @ padStart 2 (nat (ms div 3600000)) @ '':''
         @ padStart 2 (nat (ms div 60000 mod 60)) @ '':''
         @ padStart 2 (nat (ms div 1000 mod 60)) @ ''.''
         @ padStart 3 (nat (ms mod 1000)) @ ''Z'')"

subsection \<open>JSON values\<close>

text \<open>
  Strings are HOL strings (code units 0 to 255) and numbers are integers, printed in
  plain decimal as JavaScript prints integers below \<open>10^21\<close>. What lies outside this
  (a fractional or exponent number literal, a unicode escape above \<open>00ff\<close>, an object
  with a repeated or an array-index key, whose property order JavaScript rearranges) is
  reported as \<open>Unmodelled\<close>, apart from the exceptions \<open>SyntaxError\<close> and
  \<open>TypeError\<close> that the platform throws. \<open>OutOfFuel\<close> is what the parser below
  returns when its fuel is used up, which \<open>JSON_parse\<close> never does (lemma
  \<open>JSON_parse_fuel\<close>).
\<close>

datatype json =
  JNull | JBool bool | JNum int | JStr string | JArr "json list" | JObj "(string \<times> json) list"

datatype error = SyntaxError | TypeError | Unmodelled | OutOfFuel

subsection \<open>\<open>JSON.stringify\<close>\<close>

definition hex_digit :: "nat \<Rightarrow> char" where
  "hex_digit n = (if n < 10 then char_of (48 + n) else char_of (87 + n))"

definition quote_char :: "char \<Rightarrow> string" where
  "quote_char c =
     (if c = CHR 0x22 then [CHR 0x5C, CHR 0x22]
      else if c = CHR 0x5C then [CHR 0x5C, CHR 0x5C]
      else if c = CHR 0x08 then [CHR 0x5C, CHR ''b'']
      else if c = CHR 0x0C then [CHR 0x5C, CHR ''f'']
      else if c = CHR 0x0A then [CHR 0x5C, CHR ''n'']
      else if c = CHR 0x0D then [CHR 0x5C, CHR ''r'']
      else if c = CHR 0x09 then [CHR 0x5C, CHR ''t'']
      else if (of_char c :: nat) < 32 then
        [CHR 0x5C, CHR ''u'', CHR ''0'', CHR ''0'',
         hex_digit (of_char c div 16), hex_digit (of_char c mod 16)]
      else [c])"

definition quote :: "string \<Rightarrow> string" where
  "quote s = CHR 0x22 # concat (map quote_char s) @ [CHR 0x22]"

definition show_int :: "int \<Rightarrow> string" where
  "show_int i = (if i < 0 then CHR ''-'' # digits_of (nat (- i)) else digits_of (nat i))"

fun commas :: "string list \<Rightarrow> string" where
  "commas [] = []"
| "commas [x] = x"
| "commas (x # y # ys) = x @ CHR '','' # commas (y # ys)"

fun JSON_stringify :: "json \<Rightarrow> string" where
  "JSON_stringify JNull = ''null''"
| "JSON_stringify (JBool b) = (if b then ''true'' else ''false'')"
| "JSON_stringify (JNum i) = show_int i"
| "JSON_stringify (JStr s) = quote s"
| "JSON_stringify (JArr xs) = CHR ''['' # commas (map JSON_stringify xs) @ '']''"
| "JSON_stringify (JObj kvs) =
     CHR ''{'' # commas (map (\<lambda>(k, v). quote k @ CHR '':'' # JSON_stringify v) kvs) @ ''}''"

subsection \<open>\<open>JSON.parse\<close>\<close>

text \<open>
  A recursive-descent parser of the JSON grammar. Every function returns the parsed
  item with the rest of the text. The string scanner reads one code unit at a time and
  remembers whether it is inside an escape; the value parser carries fuel, one unit for
  each nested call, and \<open>JSON_parse\<close> supplies as much as a text of that length can use.
\<close>

definition is_ws :: "char \<Rightarrow> bool" where
  "is_ws c = (c = CHR 0x20 \<or> c = CHR 0x09 \<or> c = CHR 0x0A \<or> c = CHR 0x0D)"

definition skip_ws :: "string \<Rightarrow> string" where
  "skip_ws s = dropWhile is_ws s"

definition is_digit :: "char \<Rightarrow> bool" where
  "is_digit c = (48 \<le> (of_char c :: nat) \<and> (of_char c :: nat) \<le> 57)"

definition digit_val :: "char \<Rightarrow> nat" where
  "digit_val c = of_char c - 48"

definition unhex :: "char \<Rightarrow> nat option" where
  "unhex c =
     (let v = (of_char c :: nat)
      in if 48 \<le> v \<and> v \<le> 57 then Some (v - 48)
         else if 97 \<le> v \<and> v \<le> 102 then Some (v - 87)
         else if 65 \<le> v \<and> v \<le> 70 then Some (v - 55)
         else None)"

definition simple_escape :: "char \<Rightarrow> char option" where
  "simple_escape c =
     (if c = CHR 0x22 then Some (CHR 0x22)
      else if c = CHR 0x5C then Some (CHR 0x5C)
      else if c = CHR ''/'' then Some (CHR ''/'')
      else if c = CHR ''b'' then Some (CHR 0x08)
      else if c = CHR ''f'' then Some (CHR 0x0C)
      else if c = CHR ''n'' then Some (CHR 0x0A)
      else if c = CHR ''r'' then Some (CHR 0x0D)
      else if c = CHR ''t'' then Some (CHR 0x09)
      else None)"

datatype scan_mode = Plain | Escape | Hex nat nat

definition cons_char :: "char \<Rightarrow> error + string \<times> string \<Rightarrow> error + string \<times> string" where
  "cons_char c r = (case r of Inl e \<Rightarrow> Inl e | Inr (s, rest) \<Rightarrow> Inr (c # s, rest))"

fun parse_chars :: "scan_mode \<Rightarrow> string \<Rightarrow> error + string \<times> string" where
  "parse_chars m [] = Inl SyntaxError"
| "parse_chars Plain (c # cs) =
     (if c = CHR 0x22 then Inr ([], cs)
      else if c = CHR 0x5C then parse_chars Escape cs
      else if (of_char c :: nat) < 32 then Inl SyntaxError
      else cons_char c (parse_chars Plain cs))"
| "parse_chars Escape (c # cs) =
     (if c = CHR ''u'' then parse_chars (Hex 4 0) cs
      else (case simple_escape c of
              None \<Rightarrow> Inl SyntaxError
            | Some x \<Rightarrow> cons_char x (parse_chars Plain cs)))"
| "parse_chars (Hex k acc) (c # cs) =
     (case unhex c of
        None \<Rightarrow> Inl SyntaxError
      | Some d \<Rightarrow>
          (if k \<le> 1 then
             (if acc * 16 + d < 256 then cons_char (char_of (acc * 16 + d)) (parse_chars Plain cs)
              else Inl Unmodelled)
           else parse_chars (Hex (k - 1) (acc * 16 + d)) cs))"

definition read_nat :: "string \<Rightarrow> nat" where
  "read_nat ds = foldl (\<lambda>a c. 10 * a + digit_val c) 0 ds"

definition parse_number :: "string \<Rightarrow> error + json \<times> string" where
  "parse_number s =
     (let neg = (s \<noteq> [] \<and> hd s = CHR ''-'');
          s1 = (if neg then tl s else s);
          ds = takeWhile is_digit s1;
          r = dropWhile is_digit s1
      in if ds = [] then Inl SyntaxError
         else if hd ds = CHR ''0'' \<and> 1 < length ds then Inl SyntaxError
         else if r \<noteq> [] \<and> (hd r = CHR ''.'' \<or> hd r = CHR ''e'' \<or> hd r = CHR ''E'') then Inl Unmodelled
         else Inr (JNum (if neg then - int (read_nat ds) else int (read_nat ds)), r))"

definition parse_literal :: "string \<Rightarrow> json \<Rightarrow> string \<Rightarrow> error + json \<times> string" where
  "parse_literal w v s =
     (if take (length w) s = w then Inr (v, drop (length w) s) else Inl SyntaxError)"

definition is_index_key :: "string \<Rightarrow> bool" where
  "is_index_key k = (k \<noteq> [] \<and> list_all is_digit k \<and> (k = ''0'' \<or> hd k \<noteq> CHR ''0''))"

fun parse_value :: "nat \<Rightarrow> string \<Rightarrow> error + json \<times> string"
  and parse_elems :: "nat \<Rightarrow> string \<Rightarrow> error + json list \<times> string"
  and parse_members :: "nat \<Rightarrow> string \<Rightarrow> error + (string \<times> json) list \<times> string"
where
  "parse_value 0 s = Inl OutOfFuel"
| "parse_value (Suc n) s =
     (case skip_ws s of
        [] \<Rightarrow> Inl SyntaxError
      | c # cs \<Rightarrow>
          if c = CHR ''['' then
            (case skip_ws cs of
               [] \<Rightarrow> Inl SyntaxError
             | d # ds \<Rightarrow>
                 if d = CHR '']'' then Inr (JArr [], ds)
                 else (case parse_elems n cs of
                         Inl e \<Rightarrow> Inl e
                       | Inr (vs, r) \<Rightarrow> Inr (JArr vs, r)))
          else if c = CHR ''{'' then
            (case skip_ws cs of
               [] \<Rightarrow> Inl SyntaxError
             | d # ds \<Rightarrow>
                 if d = CHR ''}'' then Inr (JObj [], ds)
                 else (case parse_members n cs of
                         Inl e \<Rightarrow> Inl e
                       | Inr (kvs, r) \<Rightarrow> Inr (JObj kvs, r)))
          else if c = CHR 0x22 then
            (case parse_chars Plain cs of
               Inl e \<Rightarrow> Inl e
             | Inr (x, r) \<Rightarrow> Inr (JStr x, r))
          else if c = CHR ''n'' then parse_literal ''null'' JNull (c # cs)
          else if c = CHR ''t'' then parse_literal ''true'' (JBool True) (c # cs)
          else if c = CHR ''f'' then parse_literal ''false'' (JBool False) (c # cs)
          else if c = CHR ''-'' \<or> is_digit c then parse_number (c # cs)
          else Inl SyntaxError)"
| "parse_elems 0 s = Inl OutOfFuel"
| "parse_elems (Suc n) s =
     (case parse_value n s of
        Inl e \<Rightarrow> Inl e
      | Inr (v, r) \<Rightarrow>
          (case skip_ws r of
             [] \<Rightarrow> Inl SyntaxError
           | c # cs \<Rightarrow>
               if c = CHR '','' then
                 (case parse_elems n cs of
                    Inl e \<Rightarrow> Inl e
                  | Inr (vs, r') \<Rightarrow> Inr (v # vs, r'))
               else if c = CHR '']'' then Inr ([v], cs)
               else Inl SyntaxError))"
| "parse_members 0 s = Inl OutOfFuel"
| "parse_members (Suc n) s =
     (case skip_ws s of
        [] \<Rightarrow> Inl SyntaxError
      | q # qs \<Rightarrow>
          if q \<noteq> CHR 0x22 then Inl SyntaxError
          else (case parse_chars Plain qs of
                  Inl e \<Rightarrow> Inl e
                | Inr (k, r0) \<Rightarrow>
                    (case skip_ws r0 of
                       [] \<Rightarrow> Inl SyntaxError
                     | p # r1 \<Rightarrow>
                         if p \<noteq> CHR '':'' then Inl SyntaxError
                         else (case parse_value n r1 of
                                 Inl e \<Rightarrow> Inl e
                               | Inr (v, r) \<Rightarrow>
                                   (case skip_ws r of
                                      [] \<Rightarrow> Inl SyntaxError
                                    | c # cs \<Rightarrow>
                                        if c = CHR '','' then
                                          (case parse_members n cs of
                                             Inl e \<Rightarrow> Inl e
                                           | Inr (kvs, r') \<Rightarrow>
                                               if is_index_key k \<or> k \<in> set (map fst kvs)
                                               then Inl Unmodelled
                                               else Inr ((k, v) # kvs, r'))
                                        else if c = CHR ''}'' then
                                          (if is_index_key k then Inl Unmodelled
                                           else Inr ([(k, v)], cs))
                                        else Inl SyntaxError)))))"

definition JSON_parse :: "string \<Rightarrow> error + json" where
  "JSON_parse s =
     (case parse_value (2 * length s + 1) s of
        Inl e \<Rightarrow> Inl e
      | Inr (v, r) \<Rightarrow> if skip_ws r = [] then Inr v else Inl SyntaxError)"

subsection \<open>Values inside the model, and the fuel their text needs\<close>

text \<open>
  A value is inside the model when no object in it repeats a key or has an array-index
  key. \<open>fuel_need\<close> counts the nested calls the parser makes on the text of a value,
  \<open>member_text\<close> is the text of one member of an object, and \<open>follow_ok\<close> describes
  what may come after a value inside a larger text.
\<close>

fun wf_json :: "json \<Rightarrow> bool" where
  "wf_json (JArr xs) = list_all wf_json xs"
| "wf_json (JObj kvs) =
     (distinct (map fst kvs) \<and> list_all (\<lambda>kv. \<not> is_index_key (fst kv) \<and> wf_json (snd kv)) kvs)"
| "wf_json v = True"

fun fuel_need :: "json \<Rightarrow> nat" where
  "fuel_need (JArr xs) = Suc (sum_list (map (\<lambda>x. Suc (fuel_need x)) xs))"
| "fuel_need (JObj kvs) = Suc (sum_list (map (\<lambda>kv. Suc (fuel_need (snd kv))) kvs))"
| "fuel_need v = 1"

definition member_text :: "string \<times> json \<Rightarrow> string" where
  "member_text kv = quote (fst kv) @ CHR '':'' # JSON_stringify (snd kv)"

definition follow_ok :: "string \<Rightarrow> bool" where
  "follow_ok rest =
     (rest = [] \<or> hd rest = CHR '','' \<or> hd rest = CHR '']'' \<or> hd rest = CHR ''}'')"

section \<open>Submitting, and the offline queue in \<open>localStorage\<close>\<close>

text \<open>
  What the component reads from outside itself: \<open>useOnlineStatus()\<close>, the clock read
  by \<open>new Date()\<close>, and the catalog through \<open>getCarById\<close>.

  Modelled from the spec: the Remote Booking API \<open>createBooking(record) -> success |
  rejected(reason) | unreachable\<close> is an external collaborator with no counterpart in
  the sources. The answers it would give to the next calls are the field
  \<open>remoteAnswers\<close> of the environment, and the records it has been handed are the
  field \<open>remoteCalls\<close> of the world; the functions below are the page's code, which
  reads the one and writes the other nowhere.
\<close>

datatype remote_result = Success | Rejected string | Unreachable

record env =
  isOnline :: bool
  now :: int
  getCarById :: catalog
  remoteAnswers :: "remote_result list"

record world =
  localStorage :: "string \<rightharpoonup> string"
  console :: "(string \<times> json) list"
  remoteCalls :: "json list"

text \<open>The object \<open>bookingData\<close> built by \<open>handleSubmit\<close>, and its own properties in order.\<close>

record BookingRecord =
  rec_carId :: string
  rec_pickupLocation :: string
  rec_dropoffLocation :: string
  rec_date :: "string option"
  rec_time :: string
  rec_duration :: int
  rec_price :: int
  rec_createdAt :: string

definition bookingData :: "env \<Rightarrow> state \<Rightarrow> BookingRecord" where
  "bookingData e st =
     \<lparr>rec_carId = carId (booking st),
      rec_pickupLocation = pickupLocation (booking st),
      rec_dropoffLocation = dropoffLocation (booking st),
      rec_date = map_option toISOString (date (booking st)),
      rec_time = time (booking st),
      rec_duration = duration (booking st),
      rec_price = calculatePrice (getCarById e) st,
      rec_createdAt = toISOString (now e)\<rparr>"

text \<open>\<open>JSON.stringify\<close> leaves out a property whose value is \<open>undefined\<close>.\<close>

definition json_of :: "BookingRecord \<Rightarrow> json" where
  "json_of r =
     JObj ([(''carId'', JStr (rec_carId r)),
            (''pickupLocation'', JStr (rec_pickupLocation r)),
            (''dropoffLocation'', JStr (rec_dropoffLocation r))]
           @ (case rec_date r of None \<Rightarrow> [] | Some d \<Rightarrow> [(''date'', JStr d)])
           @ [(''time'', JStr (rec_time r)),
              (''duration'', JNum (rec_duration r)),
              (''price'', JNum (rec_price r)),
              (''createdAt'', JStr (rec_createdAt r))])"

text \<open>\<open>localStorage.getItem(key) || fallback\<close>: a missing or empty item gives the fallback.\<close>

definition getItemOr :: "world \<Rightarrow> string \<Rightarrow> string \<Rightarrow> string" where
  "getItemOr w key fallback =
     (case localStorage w key of
        None \<Rightarrow> fallback
      | Some v \<Rightarrow> if v = [] then fallback else v)"

text \<open>
  \<open>localStorage.setItem\<close> is taken to succeed; a full or denied store, where it
  throws, is outside the model.
\<close>

definition setItem :: "string \<Rightarrow> string \<Rightarrow> world \<Rightarrow> world" where
  "setItem key v w = w\<lparr>localStorage := (localStorage w)(key \<mapsto> v)\<rparr>"

text \<open>\<open>pending.push(x)\<close>: only an array has a \<open>push\<close> that can be called.\<close>

definition js_push :: "json \<Rightarrow> json \<Rightarrow> error + json" where
  "js_push pending x =
     (case pending of JArr xs \<Rightarrow> Inr (JArr (xs @ [x])) | _ \<Rightarrow> Inl TypeError)"

text \<open>
  \<open>pending.length > 0\<close>: the length of an array or of a string, a property read that
  throws on \<open>null\<close>, \<open>undefined > 0\<close> on a boolean or a number, and the own property
  \<open>length\<close> of an object, where comparing a string or an array with 0 is not modelled.
\<close>

definition length_positive :: "json \<Rightarrow> error + bool" where
  "length_positive pending =
     (case pending of
        JArr xs \<Rightarrow> Inr (xs \<noteq> [])
      | JStr s \<Rightarrow> Inr (s \<noteq> [])
      | JNull \<Rightarrow> Inl TypeError
      | JBool b \<Rightarrow> Inr False
      | JNum i \<Rightarrow> Inr False
      | JObj kvs \<Rightarrow>
          (case map_of kvs ''length'' of
             None \<Rightarrow> Inr False
           | Some (JNum i) \<Rightarrow> Inr (0 < i)
           | Some (JBool b) \<Rightarrow> Inr b
           | Some JNull \<Rightarrow> Inr False
           | Some (JObj m) \<Rightarrow> Inr False
           | Some (JStr s) \<Rightarrow> Inl Unmodelled
           | Some (JArr xs) \<Rightarrow> Inl Unmodelled))"

definition handleSubmit :: "env \<Rightarrow> world \<times> state \<Rightarrow> error + world \<times> state" where
  "handleSubmit e ws =
     (let w = fst ws; st = snd ws; data = bookingData e st
      in if \<not> isOnline e then
           (case JSON_parse (getItemOr w ''pendingBookings'' ''[]'') of
              Inl err \<Rightarrow> Inl err
            | Inr pending \<Rightarrow>
                (case js_push pending (json_of data) of
                   Inl err \<Rightarrow> Inl err
                 | Inr pending' \<Rightarrow>
                     Inr (setItem ''pendingBookings'' (JSON_stringify pending') w,
                          st\<lparr>isSubmitted := True\<rparr>)))
         else Inr (w, st\<lparr>isSubmitted := True\<rparr>))"

text \<open>The confirm button calls \<open>handleSubmit\<close>; it is rendered at the last step only.\<close>

definition clickConfirm :: "env \<Rightarrow> world \<times> state \<Rightarrow> (error + world \<times> state) option" where
  "clickConfirm e ws = (if confirmShown (snd ws) then Some (handleSubmit e ws) else None)"

text \<open>
  The body of the offline-sync effect, which React runs after the first render and
  after every render in which \<open>isOnline\<close> has changed.
\<close>

definition syncEffect :: "env \<Rightarrow> world \<Rightarrow> error + world" where
  "syncEffect e w =
     (if isOnline e then
        (case JSON_parse (getItemOr w ''pendingBookings'' ''[]'') of
           Inl err \<Rightarrow> Inl err
         | Inr pending \<Rightarrow>
             (case length_positive pending of
                Inl err \<Rightarrow> Inl err
              | Inr positive \<Rightarrow>
                  if positive then
                    Inr (setItem ''pendingBookings'' ''[]''
                           (w\<lparr>console := console w @ [(''Syncing pending bookings:'', pending)]\<rparr>))
                  else Inr w))
      else Inr w)"

text \<open>The queue as the store holds it: the array that \<open>JSON.parse\<close> reads back.\<close>

definition pendingBookings :: "world \<Rightarrow> error + json" where
  "pendingBookings w = JSON_parse (getItemOr w ''pendingBookings'' ''[]'')"

text \<open>
  The item \<open>pendingBookings\<close> is written by this page only: by \<open>handleSubmit\<close> as the
  text of an array of booking objects, and by the sync effect as \<open>[]\<close>. \<open>stored q\<close>
  is that text for the records \<open>q\<close>, and \<open>holds_queue w q\<close> says that the store of
  \<open>w\<close> is in this state: the item is absent and \<open>q\<close> is empty, or it is \<open>stored q\<close>.
\<close>

definition stored :: "BookingRecord list \<Rightarrow> string" where
  "stored q = JSON_stringify (JArr (map json_of q))"

definition holds_queue :: "world \<Rightarrow> BookingRecord list \<Rightarrow> bool" where
  "holds_queue w q =
     (case localStorage w ''pendingBookings'' of None \<Rightarrow> q = [] | Some s \<Rightarrow> s = stored q)"

text \<open>
  The worlds the page can bring about: it starts from a store without the item, and
  every submission and every run of the sync effect that returns leads to the next.
\<close>

inductive reachable :: "world \<Rightarrow> bool" where
  fresh: "localStorage w ''pendingBookings'' = None \<Longrightarrow> reachable w"
| submitted: "reachable w \<Longrightarrow> handleSubmit e (w, st) = Inr (w', st') \<Longrightarrow> reachable w'"
| synced: "reachable w \<Longrightarrow> syncEffect e w = Inr w' \<Longrightarrow> reachable w'"

subsection \<open>Example data\<close>

text \<open>
  Concrete inputs for the examples below: vehicles at 20 and at 35 per hour, a
  completed draft for three hours of the first on 20 March 2030, that draft at the
  confirmation step, the records that submitting it offline at 14:30:15.250 and at
  14:45:00.007 UTC on 18 March 2030 produces, and a browser with an empty store.
\<close>

abbreviation sedan :: Car where
  "sedan \<equiv> \<lparr>car_id = ''v1'', car_name = ''Sedan'', car_type = ''Sedan'', seats = 5,
            pricePerHour = 20, image = []\<rparr>"


abbreviation draft_v1 :: BookingData where
  "draft_v1 \<equiv> \<lparr>carId = ''v1'', pickupLocation = ''Kigali'', dropoffLocation = ''Huye'',
               date = Some 1900195200000, time = ''09:00'', duration = 3\<rparr>"

abbreviation confirming_v1 :: state where
  "confirming_v1 \<equiv> \<lparr>step = 3, booking = draft_v1, isSubmitted = False\<rparr>"

abbreviation record_1 :: BookingRecord where
  "record_1 \<equiv> \<lparr>rec_carId = ''v1'', rec_pickupLocation = ''Kigali'',
               rec_dropoffLocation = ''Huye'', rec_date = Some ''2030-03-20T00:00:00.000Z'',
               rec_time = ''09:00'', rec_duration = 3, rec_price = 60,
               rec_createdAt = ''2030-03-18T14:30:15.250Z''\<rparr>"

abbreviation record_2 :: BookingRecord where
  "record_2 \<equiv> \<lparr>rec_carId = ''v1'', rec_pickupLocation = ''Kigali'',
               rec_dropoffLocation = ''Huye'', rec_date = Some ''2030-03-20T00:00:00.000Z'',
               rec_time = ''09:00'', rec_duration = 3, rec_price = 60,
               rec_createdAt = ''2030-03-18T14:45:00.007Z''\<rparr>"

abbreviation empty_world :: world where
  "empty_world \<equiv> \<lparr>localStorage = Map.empty, console = [], remoteCalls = []\<rparr>"

section \<open>\<open>JSON.parse\<close> reads back what \<open>JSON.stringify\<close> writes\<close>

text \<open>
  The round trip is proved bottom up: decimal numerals, quoted strings, then values by
  induction, with the elements of an array and the members of an object by an inner
  induction on the list.
\<close>

subsection \<open>Numbers\<close>

lemma of_char_digit_char: "d < 10 \<Longrightarrow> (of_char (digit_char d) :: nat) = 48 + d"
  by (simp add: digit_char_def)

lemma is_digit_digit_char: "d < 10 \<Longrightarrow> is_digit (digit_char d)"
  by (simp add: is_digit_def of_char_digit_char)

lemma digit_val_digit_char: "d < 10 \<Longrightarrow> digit_val (digit_char d) = d"
  by (simp add: digit_val_def of_char_digit_char)

lemma digits_of_nonempty: "digits_of n \<noteq> []"
  by (subst digits_of.simps) simp

lemma digits_of_all_digits: "list_all is_digit (digits_of n)"
proof (induction n rule: digits_of.induct)
  case (1 n)
  show ?case
  proof (cases "n < 10")
    case True
    then show ?thesis by (subst digits_of.simps) (simp add: is_digit_digit_char)
  next
    case False
    with 1 show ?thesis by (subst digits_of.simps) (simp add: is_digit_digit_char)
  qed
qed

lemma read_nat_snoc: "read_nat (ds @ [c]) = 10 * read_nat ds + digit_val c"
  by (simp add: read_nat_def)

lemma read_nat_digits_of: "read_nat (digits_of n) = n"
proof (induction n rule: digits_of.induct)
  case (1 n)
  show ?case
  proof (cases "n < 10")
    case True
    then show ?thesis by (subst digits_of.simps) (simp add: read_nat_def digit_val_digit_char)
  next
    case False
    with 1 have "read_nat (digits_of (n div 10)) = n div 10" by simp
    with False show ?thesis
      by (subst digits_of.simps) (simp add: read_nat_snoc digit_val_digit_char)
  qed
qed

lemma hd_digits_of: "hd (digits_of n) = CHR ''0'' \<Longrightarrow> n = 0"
proof (induction n rule: digits_of.induct)
  case (1 n)
  show ?case
  proof (cases "n < 10")
    case True
    with 1(2) have "digit_char n = CHR ''0''" by (subst (asm) digits_of.simps) simp
    then have "(of_char (digit_char n) :: nat) = of_char (CHR ''0'')" by simp
    with True show ?thesis by (simp add: of_char_digit_char)
  next
    case False
    with 1(2) have "hd (digits_of (n div 10)) = CHR ''0''"
      by (subst (asm) digits_of.simps) (simp add: digits_of_nonempty)
    with 1(1) False have "n div 10 = 0" by simp
    with False show ?thesis by simp
  qed
qed

lemma length_digits_of_0: "length (digits_of 0) = 1"
  by (subst digits_of.simps) simp

lemma takeWhile_digits_of:
  "rest = [] \<or> \<not> is_digit (hd rest) \<Longrightarrow> takeWhile is_digit (digits_of n @ rest) = digits_of n"
  using digits_of_all_digits [of n]
  by (cases rest) (auto simp: list_all_iff takeWhile_append2 intro: takeWhile_eq_all_conv[THEN iffD2])

lemma dropWhile_digits_of:
  "rest = [] \<or> \<not> is_digit (hd rest) \<Longrightarrow> dropWhile is_digit (digits_of n @ rest) = rest"
  using digits_of_all_digits [of n]
  by (cases rest) (auto simp: list_all_iff dropWhile_append2)


subsection \<open>Strings\<close>

lemma unhex_hex_digit: "d < 16 \<Longrightarrow> unhex (hex_digit d) = Some d"
  by (simp add: unhex_def hex_digit_def Let_def)

lemma unhex_zero: "unhex (CHR ''0'') = Some 0"
  by (simp add: unhex_def)

lemma parse_chars_quote_char:
  "parse_chars Plain (quote_char c @ s) = cons_char c (parse_chars Plain s)"
proof -
  have v: "(of_char c :: nat) < 256" by simp
  consider "c = CHR 0x22" | "c = CHR 0x5C" | "c = CHR 0x08" | "c = CHR 0x0C" | "c = CHR 0x0A"
    | "c = CHR 0x0D" | "c = CHR 0x09"
    | "c \<noteq> CHR 0x22" "c \<noteq> CHR 0x5C" "c \<noteq> CHR 0x08" "c \<noteq> CHR 0x0C" "c \<noteq> CHR 0x0A"
      "c \<noteq> CHR 0x0D" "c \<noteq> CHR 0x09" "(of_char c :: nat) < 32"
    | "c \<noteq> CHR 0x22" "c \<noteq> CHR 0x5C" "\<not> (of_char c :: nat) < 32"
    by (cases "(of_char c :: nat) < 32") auto
  then show ?thesis
  proof cases
    case 8
    have d1: "(of_char c :: nat) div 16 < 16" using 8 by simp
    have d2: "(of_char c :: nat) mod 16 < 16" by simp
    have restore: "char_of ((of_char c :: nat) div 16 * 16 + of_char c mod 16) = c" by simp
    from 8 show ?thesis
      by (simp add: quote_char_def unhex_zero unhex_hex_digit [OF d1] unhex_hex_digit [OF d2] restore
          del: div_mult_mod_eq)
  next
    case 9
    then show ?thesis
      by (auto simp add: quote_char_def)
  qed (simp_all add: quote_char_def simple_escape_def)
qed

lemma parse_chars_quoted:
  "parse_chars Plain (concat (map quote_char s) @ CHR 0x22 # rest) = Inr (s, rest)"
  by (induction s) (simp_all add: parse_chars_quote_char cons_char_def)


subsection \<open>Numbers inside a text\<close>

lemma follow_ok_not_digit: "follow_ok rest \<Longrightarrow> rest = [] \<or> \<not> is_digit (hd rest)"
  by (auto simp: follow_ok_def is_digit_def)

lemma follow_ok_not_fraction:
  "follow_ok rest \<Longrightarrow>
   \<not> (rest \<noteq> [] \<and> (hd rest = CHR ''.'' \<or> hd rest = CHR ''e'' \<or> hd rest = CHR ''E''))"
  by (auto simp: follow_ok_def)

lemma hd_digits_of_not_minus: "hd (digits_of n) \<noteq> CHR ''-''"
proof -
  have "is_digit (hd (digits_of n))"
    using digits_of_all_digits [of n] digits_of_nonempty [of n]
    by (cases "digits_of n") simp_all
  then show ?thesis by (auto simp: is_digit_def)
qed

lemma no_leading_zero: "\<not> (hd (digits_of n) = CHR ''0'' \<and> 1 < length (digits_of n))"
  using hd_digits_of [of n] length_digits_of_0 by auto

lemma parse_number_show_int:
  assumes "follow_ok rest"
  shows "parse_number (show_int i @ rest) = Inr (JNum i, rest)"
proof (cases "i < 0")
  case True
  then show ?thesis
    using follow_ok_not_fraction [OF assms] no_leading_zero [of "nat (- i)"]
    by (simp add: parse_number_def show_int_def Let_def
        takeWhile_digits_of [OF follow_ok_not_digit [OF assms]]
        dropWhile_digits_of [OF follow_ok_not_digit [OF assms]]
        digits_of_nonempty read_nat_digits_of)
next
  case False
  then show ?thesis
    using follow_ok_not_fraction [OF assms] no_leading_zero [of "nat i"]
      hd_digits_of_not_minus [of "nat i"]
    by (simp add: parse_number_def show_int_def Let_def
        takeWhile_digits_of [OF follow_ok_not_digit [OF assms]]
        dropWhile_digits_of [OF follow_ok_not_digit [OF assms]]
        digits_of_nonempty read_nat_digits_of hd_append)
qed

lemma hd_show_int: "hd (show_int i) = CHR ''-'' \<or> is_digit (hd (show_int i))"
  using digits_of_all_digits [of "nat i"] digits_of_nonempty [of "nat i"]
  by (cases "digits_of (nat i)") (simp_all add: show_int_def)

lemma show_int_nonempty: "show_int i \<noteq> []"
  by (simp add: show_int_def digits_of_nonempty)



subsection \<open>Values\<close>

lemma skip_ws_id: "s \<noteq> [] \<Longrightarrow> \<not> is_ws (hd s) \<Longrightarrow> skip_ws s = s"
  by (cases s) (simp_all add: skip_ws_def)

lemma skip_ws_Cons: "\<not> is_ws c \<Longrightarrow> skip_ws (c # s) = c # s"
  by (simp add: skip_ws_def)

lemma not_ws_digit: "is_digit c \<Longrightarrow> \<not> is_ws c"
  by (auto simp: is_digit_def is_ws_def)

lemma stringify_first:
  "\<exists>c cs. JSON_stringify v = c # cs \<and> \<not> is_ws c \<and> c \<noteq> CHR '']'' \<and> c \<noteq> CHR ''}''"
proof (cases v)
  case (JNum i)
  obtain c cs where cs: "show_int i = c # cs" using show_int_nonempty [of i] by (cases "show_int i") auto
  with hd_show_int [of i] have "c = CHR ''-'' \<or> is_digit c" by simp
  then have "\<not> is_ws c \<and> c \<noteq> CHR '']'' \<and> c \<noteq> CHR ''}''"
    by (auto simp: is_ws_def is_digit_def)
  with cs JNum show ?thesis by simp
qed (simp_all add: is_ws_def quote_def)


lemma follow_ok_simps:
  "follow_ok []" "follow_ok (CHR '','' # s)" "follow_ok (CHR '']'' # s)" "follow_ok (CHR ''}'' # s)"
  by (simp_all add: follow_ok_def)

lemma not_ws_simps:
  "\<not> is_ws (CHR '','')" "\<not> is_ws (CHR '']'')" "\<not> is_ws (CHR ''}'')" "\<not> is_ws (CHR '':'')"
  "\<not> is_ws (CHR 0x22)" "\<not> is_ws (CHR ''['')" "\<not> is_ws (CHR ''{'')"
  by (simp_all add: is_ws_def)

lemma parse_elems_commas:
  assumes IH: "\<And>x n rest. x \<in> set xs \<Longrightarrow> wf_json x \<Longrightarrow> fuel_need x \<le> n \<Longrightarrow> follow_ok rest
                 \<Longrightarrow> parse_value n (JSON_stringify x @ rest) = Inr (x, rest)"
    and "xs \<noteq> []" and "list_all wf_json xs"
    and "sum_list (map (\<lambda>x. Suc (fuel_need x)) xs) \<le> n"
  shows "parse_elems n (commas (map JSON_stringify xs) @ CHR '']'' # rest) = Inr (xs, rest)"
  using assms
proof (induction xs arbitrary: n)
  case Nil
  then show ?case by simp
next
  case (Cons x xs)
  from Cons.prems(4) obtain m where n: "n = Suc m" and m: "fuel_need x \<le> m"
    and ms: "sum_list (map (\<lambda>x. Suc (fuel_need x)) xs) \<le> m"
    by (cases n) auto
  have wfx: "wf_json x" and wfs: "list_all wf_json xs" using Cons.prems(3) by simp_all
  show ?case
  proof (cases xs)
    case Nil
    have "parse_value m (JSON_stringify x @ CHR '']'' # rest) = Inr (x, CHR '']'' # rest)"
      using Cons.prems(1) [of x m "CHR '']'' # rest"] wfx m by (simp add: follow_ok_simps)
    with Nil n show ?thesis by (simp add: skip_ws_Cons not_ws_simps)
  next
    case (Cons y ys)
    let ?tail = "commas (map JSON_stringify xs) @ CHR '']'' # rest"
    have "parse_value m (JSON_stringify x @ CHR '','' # ?tail) = Inr (x, CHR '','' # ?tail)"
      using Cons.prems(1) [of x m "CHR '','' # ?tail"] wfx m by (simp add: follow_ok_simps)
    moreover have "parse_elems m ?tail = Inr (xs, rest)"
      using Cons.IH [of m] Cons.prems(1) wfs ms Cons by simp
    ultimately show ?thesis using Cons n by (simp add: skip_ws_Cons not_ws_simps)
  qed
qed



lemma stringify_JObj:
  "JSON_stringify (JObj kvs) = CHR ''{'' # commas (map member_text kvs) @ ''}''"
proof -
  have "(\<lambda>(k, v). quote k @ CHR '':'' # JSON_stringify v) = member_text"
    by (auto simp: member_text_def fun_eq_iff)
  then show ?thesis by simp
qed

lemma member_text_pair:
  "member_text (k, v) @ t
     = CHR 0x22 # concat (map quote_char k) @ CHR 0x22 # CHR '':'' # JSON_stringify v @ t"
  by (simp add: member_text_def quote_def)

lemma parse_members_commas:
  assumes IH: "\<And>kv n rest. kv \<in> set kvs \<Longrightarrow> wf_json (snd kv) \<Longrightarrow> fuel_need (snd kv) \<le> n
                 \<Longrightarrow> follow_ok rest
                 \<Longrightarrow> parse_value n (JSON_stringify (snd kv) @ rest) = Inr (snd kv, rest)"
    and "kvs \<noteq> []" and "distinct (map fst kvs)"
    and "list_all (\<lambda>kv. \<not> is_index_key (fst kv) \<and> wf_json (snd kv)) kvs"
    and "sum_list (map (\<lambda>kv. Suc (fuel_need (snd kv))) kvs) \<le> n"
  shows "parse_members n (commas (map member_text kvs) @ CHR ''}'' # rest) = Inr (kvs, rest)"
  using assms
proof (induction kvs arbitrary: n)
  case Nil
  then show ?case by simp
next
  case (Cons kv kvs)
  obtain k v where kv: "kv = (k, v)" by (cases kv)
  from Cons.prems(5) obtain m where n: "n = Suc m" and m: "fuel_need v \<le> m"
    and ms: "sum_list (map (\<lambda>kv. Suc (fuel_need (snd kv))) kvs) \<le> m"
    by (cases n) (auto simp: kv)
  have wfv: "wf_json v" and nik: "\<not> is_index_key k"
    and wfs: "list_all (\<lambda>kv. \<not> is_index_key (fst kv) \<and> wf_json (snd kv)) kvs"
    and fresh: "k \<notin> fst ` set kvs" and dist: "distinct (map fst kvs)"
    using Cons.prems(3,4) by (simp_all add: kv)
  have key: "\<And>t. parse_chars Plain (concat (map quote_char k) @ CHR 0x22 # t) = Inr (k, t)"
    by (rule parse_chars_quoted)
  show ?case
  proof (cases kvs)
    case Nil
    have "parse_value m (JSON_stringify v @ CHR ''}'' # rest) = Inr (v, CHR ''}'' # rest)"
      using Cons.prems(1) [of kv m "CHR ''}'' # rest"] wfv m by (simp add: follow_ok_simps kv)
    with Nil n nik show ?thesis
      by (simp add: kv member_text_pair skip_ws_Cons not_ws_simps key)
  next
    case (Cons kv' kvs')
    let ?tail = "commas (map member_text kvs) @ CHR ''}'' # rest"
    have "parse_value m (JSON_stringify v @ CHR '','' # ?tail) = Inr (v, CHR '','' # ?tail)"
      using Cons.prems(1) [of kv m "CHR '','' # ?tail"] wfv m by (simp add: follow_ok_simps kv)
    moreover have "parse_members m ?tail = Inr (kvs, rest)"
      using Cons.IH [of m] Cons.prems(1) wfs ms dist Cons by simp
    ultimately show ?thesis using Cons n nik fresh
      by (simp add: kv member_text_pair skip_ws_Cons not_ws_simps key)
  qed
qed


lemma parse_value_stringify:
  "wf_json v \<Longrightarrow> fuel_need v \<le> n \<Longrightarrow> follow_ok rest
   \<Longrightarrow> parse_value n (JSON_stringify v @ rest) = Inr (v, rest)"
proof (induction v arbitrary: n rest)
  case JNull
  then obtain m where "n = Suc m" by (cases n) auto
  then show ?case by (simp add: skip_ws_def is_ws_def parse_literal_def)
next
  case (JBool b)
  then obtain m where "n = Suc m" by (cases n) auto
  then show ?case by (simp add: skip_ws_def is_ws_def parse_literal_def)
next
  case (JNum i)
  then obtain m where n: "n = Suc m" by (cases n) auto
  obtain c cs where cs: "show_int i = c # cs"
    using show_int_nonempty [of i] by (cases "show_int i") auto
  with hd_show_int [of i] have c: "c = CHR ''-'' \<or> is_digit c" by simp
  then have nws: "\<not> is_ws c" and other: "c \<noteq> CHR ''[''" "c \<noteq> CHR ''{''" "c \<noteq> CHR 0x22"
    "c \<noteq> CHR ''n''" "c \<noteq> CHR ''t''" "c \<noteq> CHR ''f''"
    by (auto simp: is_ws_def is_digit_def)
  have "parse_number (c # cs @ rest) = Inr (JNum i, rest)"
    using parse_number_show_int [OF JNum.prems(3), of i] cs by simp
  with n c nws other cs show ?case by (simp add: skip_ws_Cons)
next
  case (JStr s)
  then obtain m where "n = Suc m" by (cases n) auto
  then show ?case by (simp add: quote_def skip_ws_Cons not_ws_simps parse_chars_quoted)
next
  case (JArr xs)
  from JArr.prems(2) obtain m where n: "n = Suc m"
    and m: "sum_list (map (\<lambda>x. Suc (fuel_need x)) xs) \<le> m"
    by (cases n) auto
  show ?case
  proof (cases xs)
    case Nil
    with n show ?thesis by (simp add: skip_ws_Cons not_ws_simps)
  next
    case (Cons y ys)
    obtain c cs where first: "JSON_stringify y = c # cs" "\<not> is_ws c" "c \<noteq> CHR '']''"
      using stringify_first [of y] by auto
    let ?body = "commas (map JSON_stringify xs) @ CHR '']'' # rest"
    have "\<exists>t. ?body = c # t" using Cons first by (cases ys) simp_all
    then obtain t where body: "?body = c # t" ..
    have "parse_elems m ?body = Inr (xs, rest)"
      using parse_elems_commas [of xs m rest] JArr.IH JArr.prems(1) m Cons by simp
    with n body first show ?thesis by (simp add: skip_ws_Cons not_ws_simps)
  qed
next
  case (JObj kvs)
  from JObj.prems(2) obtain m where n: "n = Suc m"
    and m: "sum_list (map (\<lambda>kv. Suc (fuel_need (snd kv))) kvs) \<le> m"
    by (cases n) auto
  show ?case
  proof (cases kvs)
    case Nil
    with n show ?thesis by (simp add: skip_ws_Cons not_ws_simps)
  next
    case (Cons y ys)
    let ?body = "commas (map member_text kvs) @ CHR ''}'' # rest"
    have "\<exists>t. ?body = CHR 0x22 # t"
      using Cons by (cases ys; cases y) (simp_all add: member_text_def quote_def)
    then obtain t where body: "?body = CHR 0x22 # t" ..
    have IH: "\<And>kv n rest. kv \<in> set kvs \<Longrightarrow> wf_json (snd kv) \<Longrightarrow> fuel_need (snd kv) \<le> n
                 \<Longrightarrow> follow_ok rest
                 \<Longrightarrow> parse_value n (JSON_stringify (snd kv) @ rest) = Inr (snd kv, rest)"
    proof -
      fix kv :: "string \<times> json" and n rest
      assume a: "kv \<in> set kvs" "wf_json (snd kv)" "fuel_need (snd kv) \<le> n" "follow_ok rest"
      obtain k v where kv: "kv = (k, v)" by (cases kv)
      show "parse_value n (JSON_stringify (snd kv) @ rest) = Inr (snd kv, rest)"
        using JObj.IH [of kv v n rest] a by (simp add: kv)
    qed
    have "parse_members m ?body = Inr (kvs, rest)"
      using parse_members_commas [of kvs m rest] IH JObj.prems(1) m Cons by simp
    with n body show ?thesis by (simp add: stringify_JObj skip_ws_Cons not_ws_simps del: JSON_stringify.simps)
  qed
qed


subsection \<open>The fuel suffices\<close>

lemma sum_le_commas:
  assumes "\<And>x. x \<in> set xs \<Longrightarrow> g x \<le> length (f x)"
  shows "sum_list (map (\<lambda>x. Suc (g x)) xs) \<le> Suc (length (commas (map f xs)))"
  using assms
proof (induction xs)
  case Nil
  then show ?case by simp
next
  case (Cons x xs)
  then have x: "g x \<le> length (f x)"
    and rest: "sum_list (map (\<lambda>x. Suc (g x)) xs) \<le> Suc (length (commas (map f xs)))"
    by simp_all
  show ?case
  proof (cases xs)
    case Nil
    with x show ?thesis by simp
  next
    case (Cons y ys)
    with x rest show ?thesis by simp
  qed
qed

lemma fuel_need_le_length: "fuel_need v \<le> length (JSON_stringify v)"
proof (induction v)
  case (JNum i)
  show ?case using show_int_nonempty [of i] by (cases "show_int i") simp_all
next
  case (JStr s)
  then show ?case by (simp add: quote_def)
next
  case (JArr xs)
  then have "sum_list (map (\<lambda>x. Suc (fuel_need x)) xs)
               \<le> Suc (length (commas (map JSON_stringify xs)))"
    by (intro sum_le_commas) simp
  then show ?case by simp
next
  case (JObj kvs)
  have "sum_list (map (\<lambda>kv. Suc (fuel_need (snd kv))) kvs)
               \<le> Suc (length (commas (map member_text kvs)))"
  proof (intro sum_le_commas)
    fix kv :: "string \<times> json"
    assume a: "kv \<in> set kvs"
    obtain k v where kv: "kv = (k, v)" by (cases kv)
    have "fuel_need v \<le> length (JSON_stringify v)" using JObj [of kv v] a by (simp add: kv)
    then show "fuel_need (snd kv) \<le> length (member_text kv)"
      by (simp add: kv member_text_def)
  qed
  then show ?case by (simp add: stringify_JObj del: JSON_stringify.simps)
qed simp_all

lemma JSON_parse_stringify: "wf_json v \<Longrightarrow> JSON_parse (JSON_stringify v) = Inr v"
proof -
  assume wf: "wf_json v"
  have "fuel_need v \<le> 2 * length (JSON_stringify v) + 1"
    using fuel_need_le_length [of v] by simp
  then have "parse_value (2 * length (JSON_stringify v) + 1) (JSON_stringify v @ []) = Inr (v, [])"
    using wf by (intro parse_value_stringify) (simp_all add: follow_ok_def)
  then show ?thesis by (simp add: JSON_parse_def skip_ws_def)
qed

subsection \<open>The parser never runs out of fuel\<close>

text \<open>
  Every successful call consumes input, so a text of length \<open>l\<close> needs at most
  \<open>2 * l + 1\<close> nested calls, whatever the text is.
\<close>

lemma length_skip_ws: "length (skip_ws s) \<le> length s"
  by (simp add: skip_ws_def length_dropWhile_le)

lemma skip_ws_ConsD: "skip_ws s = c # cs \<Longrightarrow> length cs < length s"
  using length_skip_ws [of s] by simp

lemma cons_char_Inr:
  "cons_char c p = Inr (x, r) \<Longrightarrow> \<exists>y. p = Inr (y, r)"
  by (auto simp: cons_char_def split: sum.splits)

lemma cons_char_fuel: "cons_char c p = Inl OutOfFuel \<Longrightarrow> p = Inl OutOfFuel"
  by (auto simp: cons_char_def split: sum.splits)

lemma parse_chars_shorter: "parse_chars m s = Inr (x, r) \<Longrightarrow> length r < length s"
proof (induction m s arbitrary: x rule: parse_chars.induct)
  case (1 m)
  then show ?case by simp
next
  case (2 c cs)
  then show ?case
    by (auto split: if_splits dest!: cons_char_Inr; blast intro: less_SucI)
next
  case (3 c cs)
  then show ?case
    by (auto split: if_splits option.splits dest!: cons_char_Inr; blast intro: less_SucI)
next
  case (4 k acc c cs)
  then show ?case
    by (auto split: if_splits option.splits dest!: cons_char_Inr; blast intro: less_SucI)
qed

lemma parse_chars_fuel: "parse_chars m s \<noteq> Inl OutOfFuel"
proof (induction m s rule: parse_chars.induct)
  case (1 m)
  then show ?case by simp
next
  case (2 c cs)
  then show ?case by (auto split: if_splits dest!: cons_char_fuel)
next
  case (3 c cs)
  then show ?case by (auto split: if_splits option.splits dest!: cons_char_fuel)
next
  case (4 k acc c cs)
  then show ?case by (auto split: if_splits option.splits dest!: cons_char_fuel)
qed

lemma parse_number_shorter: "parse_number s = Inr (v, r) \<Longrightarrow> length r < length s"
proof -
  assume a: "parse_number s = Inr (v, r)"
  let ?s1 = "if s \<noteq> [] \<and> hd s = CHR ''-'' then tl s else s"
  from a have ne: "takeWhile is_digit ?s1 \<noteq> []" and r: "r = dropWhile is_digit ?s1"
    by (auto simp: parse_number_def Let_def split: if_splits)
  have "length (takeWhile is_digit ?s1) + length (dropWhile is_digit ?s1) = length ?s1"
    by (metis length_append takeWhile_dropWhile_id)
  with ne have "length (dropWhile is_digit ?s1) < length ?s1"
    by (cases "takeWhile is_digit ?s1") auto
  moreover have "length ?s1 \<le> length s" by simp
  ultimately show ?thesis using r by simp
qed

lemma parse_number_fuel: "parse_number s \<noteq> Inl OutOfFuel"
  by (simp add: parse_number_def Let_def)

lemma parse_literal_shorter:
  "parse_literal w v s = Inr (x, r) \<Longrightarrow> w \<noteq> [] \<Longrightarrow> length r < length s"
  by (cases s) (auto simp: parse_literal_def split: if_splits)

lemma parse_literal_fuel: "parse_literal w v s \<noteq> Inl OutOfFuel"
  by (simp add: parse_literal_def)


lemma skip_ws_Cons_le: "skip_ws s = c # cs \<Longrightarrow> Suc (length cs) \<le> length s"
  using length_skip_ws [of s] by simp

lemma parse_value_shorter_step:
  assumes E0: "\<forall>s vs r. parse_elems n s = Inr (vs, r) \<longrightarrow> length r < length s"
    and M0: "\<forall>s kvs r. parse_members n s = Inr (kvs, r) \<longrightarrow> length r < length s"
    and a: "parse_value (Suc n) s = Inr (v, r)"
  shows "length r < length s"
proof -
  note E = E0 [rule_format] and M = M0 [rule_format]
  show ?thesis
  proof (cases "skip_ws s")
  case Nil
  with a show ?thesis by simp
next
  case (Cons c cs)
  note le = skip_ws_Cons_le [OF Cons]
  consider "c = CHR ''[''" | "c = CHR ''{''" | "c = CHR 0x22"
    | "c \<noteq> CHR ''[''" "c \<noteq> CHR ''{''" "c \<noteq> CHR 0x22"
    by blast
  then show ?thesis
  proof cases
    case 1
    show ?thesis
    proof (cases "skip_ws cs")
      case Nil
      with a Cons 1 show ?thesis by simp
    next
      case (Cons d ds)
      note le2 = skip_ws_Cons_le [OF Cons]
      show ?thesis
      proof (cases "d = CHR '']''")
        case True
        with a \<open>skip_ws s = c # cs\<close> 1 Cons le le2 show ?thesis by simp
      next
        case False
        with a \<open>skip_ws s = c # cs\<close> 1 Cons obtain vs where "parse_elems n cs = Inr (vs, r)"
          by (auto split: sum.splits)
        from E [OF this] le show ?thesis by simp
      qed
    qed
  next
    case 2
    show ?thesis
    proof (cases "skip_ws cs")
      case Nil
      with a Cons 2 show ?thesis by simp
    next
      case (Cons d ds)
      note le2 = skip_ws_Cons_le [OF Cons]
      show ?thesis
      proof (cases "d = CHR ''}''")
        case True
        with a \<open>skip_ws s = c # cs\<close> 2 Cons le le2 show ?thesis by simp
      next
        case False
        with a \<open>skip_ws s = c # cs\<close> 2 Cons obtain kvs where "parse_members n cs = Inr (kvs, r)"
          by (auto split: sum.splits)
        from M [OF this] le show ?thesis by simp
      qed
    qed
  next
    case 3
    with a Cons obtain x where "parse_chars Plain cs = Inr (x, r)"
      by (auto split: sum.splits)
    from parse_chars_shorter [OF this] le show ?thesis by simp
  next
    case 4
    with a Cons have "parse_literal ''null'' JNull (c # cs) = Inr (v, r)
        \<or> parse_literal ''true'' (JBool True) (c # cs) = Inr (v, r)
        \<or> parse_literal ''false'' (JBool False) (c # cs) = Inr (v, r)
        \<or> parse_number (c # cs) = Inr (v, r)"
      by (auto split: if_splits)
    then have "length r < length (c # cs)"
      using parse_literal_shorter parse_number_shorter by blast
    with le show ?thesis by simp
  qed
  qed
qed


lemma parse_elems_shorter_step:
  assumes V0: "\<forall>s v r. parse_value n s = Inr (v, r) \<longrightarrow> length r < length s"
    and E0: "\<forall>s vs r. parse_elems n s = Inr (vs, r) \<longrightarrow> length r < length s"
    and a: "parse_elems (Suc n) s = Inr (vs, r)"
  shows "length r < length s"
proof -
  note V = V0 [rule_format] and E = E0 [rule_format]
  from a obtain v r1 where v: "parse_value n s = Inr (v, r1)"
    by (auto split: sum.splits)
  note l1 = V [OF v]
  from a v obtain c cs where c: "skip_ws r1 = c # cs"
    by (cases "skip_ws r1") auto
  note l2 = skip_ws_Cons_le [OF c]
  show ?thesis
  proof (cases "c = CHR '',''")
    case True
    with a v c obtain ws where "parse_elems n cs = Inr (ws, r)"
      by (auto split: sum.splits)
    from E [OF this] l1 l2 show ?thesis by simp
  next
    case False
    with a v c have "r = cs" by (auto split: if_splits)
    with l1 l2 show ?thesis by simp
  qed
qed

lemma parse_members_shorter_step:
  assumes V0: "\<forall>s v r. parse_value n s = Inr (v, r) \<longrightarrow> length r < length s"
    and M0: "\<forall>s kvs r. parse_members n s = Inr (kvs, r) \<longrightarrow> length r < length s"
    and a: "parse_members (Suc n) s = Inr (kvs, r)"
  shows "length r < length s"
proof -
  note V = V0 [rule_format] and M = M0 [rule_format]
  from a obtain q qs where q: "skip_ws s = q # qs" by (cases "skip_ws s") auto
  note l0 = skip_ws_Cons_le [OF q]
  from a q have qq: "q = CHR 0x22" by (auto split: if_splits)
  from a q qq obtain k r0 where k: "parse_chars Plain qs = Inr (k, r0)"
    by (auto split: sum.splits)
  note l1 = parse_chars_shorter [OF k]
  from a q qq k obtain p r1 where p: "skip_ws r0 = p # r1" by (cases "skip_ws r0") auto
  note l2 = skip_ws_Cons_le [OF p]
  from a q qq k p have pp: "p = CHR '':''" by (auto split: if_splits)
  from a q qq k p pp obtain v r2 where v: "parse_value n r1 = Inr (v, r2)"
    by (auto split: sum.splits)
  note l3 = V [OF v]
  from a q qq k p pp v obtain c cs where c: "skip_ws r2 = c # cs" by (cases "skip_ws r2") auto
  note l4 = skip_ws_Cons_le [OF c]
  show ?thesis
  proof (cases "c = CHR '',''")
    case True
    with a q qq k p pp v c obtain ws where "parse_members n cs = Inr (ws, r)"
      by (auto split: sum.splits if_splits)
    from M [OF this] l0 l1 l2 l3 l4 show ?thesis by simp
  next
    case False
    with a q qq k p pp v c have "r = cs" by (auto split: if_splits)
    with l0 l1 l2 l3 l4 show ?thesis by simp
  qed
qed

lemma parse_shorter:
  "(\<forall>s v r. parse_value n s = Inr (v, r) \<longrightarrow> length r < length s)
   \<and> (\<forall>s vs r. parse_elems n s = Inr (vs, r) \<longrightarrow> length r < length s)
   \<and> (\<forall>s kvs r. parse_members n s = Inr (kvs, r) \<longrightarrow> length r < length s)"
proof (induction n)
  case 0
  show ?case by simp
next
  case (Suc n)
  then have V: "\<forall>s v r. parse_value n s = Inr (v, r) \<longrightarrow> length r < length s"
    and E: "\<forall>s vs r. parse_elems n s = Inr (vs, r) \<longrightarrow> length r < length s"
    and M: "\<forall>s kvs r. parse_members n s = Inr (kvs, r) \<longrightarrow> length r < length s"
    by simp_all
  show ?case
    using parse_value_shorter_step [OF E M] parse_elems_shorter_step [OF V E]
      parse_members_shorter_step [OF V M]
    by blast
qed

lemma parse_value_shorter: "parse_value n s = Inr (v, r) \<Longrightarrow> length r < length s"
  using parse_shorter [of n] by blast


lemma parse_value_fuel_step:
  assumes E0: "\<forall>s. 2 * length s + 2 \<le> n \<longrightarrow> parse_elems n s \<noteq> Inl OutOfFuel"
    and M0: "\<forall>s. 2 * length s + 2 \<le> n \<longrightarrow> parse_members n s \<noteq> Inl OutOfFuel"
    and n: "2 * length s + 1 \<le> Suc n"
  shows "parse_value (Suc n) s \<noteq> Inl OutOfFuel"
proof
  note E = E0 [rule_format] and M = M0 [rule_format]
  assume a: "parse_value (Suc n) s = Inl OutOfFuel"
  then obtain c cs where c: "skip_ws s = c # cs" by (cases "skip_ws s") auto
  from skip_ws_Cons_le [OF c] n have fuel: "2 * length cs + 2 \<le> n" by simp
  consider "c = CHR ''[''" | "c = CHR ''{''" | "c = CHR 0x22"
    | "c \<noteq> CHR ''[''" "c \<noteq> CHR ''{''" "c \<noteq> CHR 0x22"
    by blast
  then show False
  proof cases
    case 1
    with a c have "parse_elems n cs = Inl OutOfFuel"
      by (cases "skip_ws cs") (auto split: if_splits sum.splits)
    with E [OF fuel] show False by simp
  next
    case 2
    with a c have "parse_members n cs = Inl OutOfFuel"
      by (cases "skip_ws cs") (auto split: if_splits sum.splits)
    with M [OF fuel] show False by simp
  next
    case 3
    with a c have "parse_chars Plain cs = Inl OutOfFuel" by (auto split: sum.splits)
    with parse_chars_fuel show False by simp
  next
    case 4
    with a c show False
      by (auto simp: parse_literal_fuel parse_number_fuel split: if_splits)
  qed
qed

lemma parse_elems_fuel_step:
  assumes V0: "\<forall>s. 2 * length s + 1 \<le> n \<longrightarrow> parse_value n s \<noteq> Inl OutOfFuel"
    and E0: "\<forall>s. 2 * length s + 2 \<le> n \<longrightarrow> parse_elems n s \<noteq> Inl OutOfFuel"
    and n: "2 * length s + 2 \<le> Suc n"
  shows "parse_elems (Suc n) s \<noteq> Inl OutOfFuel"
proof
  note V = V0 [rule_format] and E = E0 [rule_format]
  assume a: "parse_elems (Suc n) s = Inl OutOfFuel"
  from n have "2 * length s + 1 \<le> n" by simp
  from V [OF this] a obtain v r1 where v: "parse_value n s = Inr (v, r1)"
    by (cases "parse_value n s") auto
  note l1 = parse_value_shorter [OF v]
  from a v obtain c cs where c: "skip_ws r1 = c # cs" by (cases "skip_ws r1") auto
  from skip_ws_Cons_le [OF c] l1 n have fuel: "2 * length cs + 2 \<le> n" by simp
  from a v c have "parse_elems n cs = Inl OutOfFuel" by (auto split: if_splits sum.splits)
  with E [OF fuel] show False by simp
qed

lemma parse_members_fuel_step:
  assumes V0: "\<forall>s. 2 * length s + 1 \<le> n \<longrightarrow> parse_value n s \<noteq> Inl OutOfFuel"
    and M0: "\<forall>s. 2 * length s + 2 \<le> n \<longrightarrow> parse_members n s \<noteq> Inl OutOfFuel"
    and n: "2 * length s + 2 \<le> Suc n"
  shows "parse_members (Suc n) s \<noteq> Inl OutOfFuel"
proof
  note V = V0 [rule_format] and M = M0 [rule_format]
  assume a: "parse_members (Suc n) s = Inl OutOfFuel"
  then obtain q qs where q: "skip_ws s = q # qs" by (cases "skip_ws s") auto
  note l0 = skip_ws_Cons_le [OF q]
  from a q have qq: "q = CHR 0x22" by (auto split: if_splits)
  from a q qq parse_chars_fuel [of Plain qs] obtain k r0 where k: "parse_chars Plain qs = Inr (k, r0)"
    by (cases "parse_chars Plain qs") auto
  note l1 = parse_chars_shorter [OF k]
  from a q qq k obtain p r1 where p: "skip_ws r0 = p # r1" by (cases "skip_ws r0") auto
  note l2 = skip_ws_Cons_le [OF p]
  from a q qq k p have pp: "p = CHR '':''" by (auto split: if_splits)
  from l0 l1 l2 n have "2 * length r1 + 1 \<le> n" by simp
  from V [OF this] a q qq k p pp obtain v r2 where v: "parse_value n r1 = Inr (v, r2)"
    by (cases "parse_value n r1") auto
  note l3 = parse_value_shorter [OF v]
  from a q qq k p pp v obtain c cs where c: "skip_ws r2 = c # cs" by (cases "skip_ws r2") auto
  from skip_ws_Cons_le [OF c] l0 l1 l2 l3 n have fuel: "2 * length cs + 2 \<le> n" by simp
  from a q qq k p pp v c have "parse_members n cs = Inl OutOfFuel"
    by (auto split: if_splits sum.splits)
  with M [OF fuel] show False by simp
qed

lemma parse_fuel:
  "(\<forall>s. 2 * length s + 1 \<le> n \<longrightarrow> parse_value n s \<noteq> Inl OutOfFuel)
   \<and> (\<forall>s. 2 * length s + 2 \<le> n \<longrightarrow> parse_elems n s \<noteq> Inl OutOfFuel)
   \<and> (\<forall>s. 2 * length s + 2 \<le> n \<longrightarrow> parse_members n s \<noteq> Inl OutOfFuel)"
proof (induction n)
  case 0
  show ?case by simp
next
  case (Suc n)
  then have V: "\<forall>s. 2 * length s + 1 \<le> n \<longrightarrow> parse_value n s \<noteq> Inl OutOfFuel"
    and E: "\<forall>s. 2 * length s + 2 \<le> n \<longrightarrow> parse_elems n s \<noteq> Inl OutOfFuel"
    and M: "\<forall>s. 2 * length s + 2 \<le> n \<longrightarrow> parse_members n s \<noteq> Inl OutOfFuel"
    by simp_all
  show ?case
    using parse_value_fuel_step [OF E M] parse_elems_fuel_step [OF V E]
      parse_members_fuel_step [OF V M]
    by blast
qed

lemma JSON_parse_fuel: "JSON_parse s \<noteq> Inl OutOfFuel"
proof -
  have "parse_value (2 * length s + 1) s \<noteq> Inl OutOfFuel"
    using parse_fuel [of "2 * length s + 1"] by simp
  then show ?thesis by (auto simp: JSON_parse_def split: sum.splits)
qed

subsection \<open>The parser on some texts\<close>

lemma parse_examples:
  "JSON_parse ''[ 1, [true, null], -20 ]'' = Inr (JArr [JNum 1, JArr [JBool True, JNull], JNum (- 20)])"
  "JSON_parse ''[1.5]'' = Inl Unmodelled"
  "JSON_parse ''[1,]'' = Inl SyntaxError"
  "JSON_parse ''[[[['' = Inl SyntaxError"
  by code_simp+

section \<open>The queue in the store\<close>

text \<open>
  The booking objects are inside the model, so the text the page writes for a queue
  reads back as that queue, and a booking object determines the record it came from.
\<close>

lemma not_index_key_names:
  "\<not> is_index_key ''carId''" "\<not> is_index_key ''pickupLocation''"
  "\<not> is_index_key ''dropoffLocation''" "\<not> is_index_key ''date''" "\<not> is_index_key ''time''"
  "\<not> is_index_key ''duration''" "\<not> is_index_key ''price''" "\<not> is_index_key ''createdAt''"
  by (simp_all add: is_index_key_def is_digit_def)

lemma wf_json_of: "wf_json (json_of r)"
  by (cases "rec_date r") (simp_all add: json_of_def not_index_key_names)

lemma wf_queue: "wf_json (JArr (map json_of q))"
  by (simp add: list_all_iff wf_json_of)

lemma JSON_parse_stored: "JSON_parse (stored q) = Inr (JArr (map json_of q))"
  unfolding stored_def by (rule JSON_parse_stringify [OF wf_queue])

lemma stored_nonempty: "stored q \<noteq> []"
  by (simp add: stored_def)

lemma stored_Nil: "stored [] = ''[]''"
  by (simp add: stored_def)

lemma pendingBookings_holds:
  "holds_queue w q \<Longrightarrow> pendingBookings w = Inr (JArr (map json_of q))"
  using JSON_parse_stored [of q] JSON_parse_stored [of "[]"]
  by (auto simp: holds_queue_def pendingBookings_def getItemOr_def stored_nonempty stored_Nil
      split: option.splits)

lemma holds_queue_setItem: "holds_queue (setItem ''pendingBookings'' (stored q) w) q"
  by (simp add: holds_queue_def setItem_def)

lemma json_of_inject: "(json_of r = json_of r') = (r = r')"
  by (cases r; cases r'; cases "rec_date r"; cases "rec_date r'") (auto simp: json_of_def)

lemma map_json_of_inject: "(map json_of q = map json_of q') = (q = q')"
  using inj_map_eq_map [of json_of q q'] json_of_inject by (auto simp: inj_on_def)

text \<open>
  \<open>holds_queue\<close> is kept by everything the page does to the store: it holds of a store
  without the item, an offline submission takes it from \<open>q\<close> to \<open>q\<close> with the new
  record appended, a sync that finds records takes it to the empty queue, and an online
  submission, an offline sync and a sync of an empty queue leave the world as it is.
\<close>

lemma handleSubmit_offline:
  assumes "\<not> isOnline e" and "holds_queue w q"
  shows "handleSubmit e (w, st)
           = Inr (setItem ''pendingBookings'' (stored (q @ [bookingData e st])) w,
                  st\<lparr>isSubmitted := True\<rparr>)"
  using assms pendingBookings_holds [OF assms(2)]
  by (simp add: handleSubmit_def pendingBookings_def js_push_def stored_def Let_def)

lemma syncEffect_nonempty:
  assumes "isOnline e" and "holds_queue w q" and "q \<noteq> []"
  shows "syncEffect e w
           = Inr (setItem ''pendingBookings'' ''[]''
                    (w\<lparr>console := console w @ [(''Syncing pending bookings:'', JArr (map json_of q))]\<rparr>))"
  using assms pendingBookings_holds [OF assms(2)]
  by (simp add: syncEffect_def pendingBookings_def length_positive_def)

lemma syncEffect_empty:
  assumes "holds_queue w []"
  shows "syncEffect e w = Inr w"
  using assms pendingBookings_holds [OF assms]
  by (simp add: syncEffect_def pendingBookings_def length_positive_def)

lemma syncEffect_offline: "\<not> isOnline e \<Longrightarrow> syncEffect e w = Inr w"
  by (simp add: syncEffect_def)

lemma handleSubmit_online:
  "isOnline e \<Longrightarrow> handleSubmit e (w, st) = Inr (w, st\<lparr>isSubmitted := True\<rparr>)"
  by (simp add: handleSubmit_def Let_def)

text \<open>
  So every world the page can bring about holds a queue of booking records, and in it
  neither a submission nor the sync effect ends in an exception.
\<close>

lemma syncEffect_holds:
  assumes "holds_queue w q"
  shows "\<exists>w'. syncEffect e w = Inr w' \<and> (holds_queue w' q \<or> holds_queue w' [])"
proof (cases "isOnline e \<and> q \<noteq> []")
  case True
  then have "syncEffect e w
           = Inr (setItem ''pendingBookings'' ''[]''
                    (w\<lparr>console := console w @ [(''Syncing pending bookings:'', JArr (map json_of q))]\<rparr>))"
    using syncEffect_nonempty [OF _ assms] by simp
  moreover have "holds_queue (setItem ''pendingBookings'' ''[]''
                    (w\<lparr>console := console w @ [(''Syncing pending bookings:'', JArr (map json_of q))]\<rparr>)) []"
    by (simp add: holds_queue_def setItem_def stored_Nil)
  ultimately show ?thesis by blast
next
  case False
  then have "syncEffect e w = Inr w"
    using syncEffect_offline [of e w] syncEffect_empty [of w e] assms by blast
  with assms show ?thesis by blast
qed

lemma handleSubmit_holds:
  assumes "holds_queue w q"
  shows "\<exists>w'. handleSubmit e (w, st) = Inr (w', st\<lparr>isSubmitted := True\<rparr>)
              \<and> (holds_queue w' q \<or> holds_queue w' (q @ [bookingData e st]))"
proof (cases "isOnline e")
  case True
  from handleSubmit_online [OF this] assms show ?thesis by blast
next
  case False
  from handleSubmit_offline [OF this assms] holds_queue_setItem show ?thesis by blast
qed

lemma reachable_holds_queue: "reachable w \<Longrightarrow> \<exists>q. holds_queue w q"
proof (induction rule: reachable.induct)
  case (fresh w)
  then have "holds_queue w []" by (simp add: holds_queue_def)
  then show ?case ..
next
  case (submitted w e st w' st')
  then obtain q where "holds_queue w q" by blast
  from handleSubmit_holds [OF this, of e st] submitted.hyps(2) show ?case by auto
next
  case (synced w e w')
  then obtain q where "holds_queue w q" by blast
  from syncEffect_holds [OF this, of e] synced.hyps(2) show ?case by auto
qed

lemma reachable_no_exception:
  assumes "reachable w"
  shows "(\<exists>w'. handleSubmit e (w, st) = Inr (w', st\<lparr>isSubmitted := True\<rparr>))
         \<and> (\<exists>w'. syncEffect e w = Inr w')"
proof -
  from reachable_holds_queue [OF assms] obtain q where "holds_queue w q" ..
  from handleSubmit_holds [OF this, of e st] syncEffect_holds [OF this, of e]
  show ?thesis by blast
qed

lemma createdAt_json_of:
  "(case json_of r of JObj kvs \<Rightarrow> map_of kvs ''createdAt'' | _ \<Rightarrow> None) = Some (JStr (rec_createdAt r))"
  by (cases "rec_date r") (simp_all add: json_of_def)

subsection \<open>Evaluating the examples\<close>

lemma digits_of_small: "n < 10 \<Longrightarrow> digits_of n = [digit_char n]"
  by (subst digits_of.simps) simp

lemma digits_of_large: "10 \<le> n \<Longrightarrow> digits_of n = digits_of (n div 10) @ [digit_char (n mod 10)]"
  by (subst digits_of.simps) simp

lemma digit_char_simps:
  "digit_char 0 = CHR ''0''" "digit_char 1 = CHR ''1''" "digit_char (Suc 0) = CHR ''1''"
  "digit_char 2 = CHR ''2''" "digit_char 3 = CHR ''3''" "digit_char 4 = CHR ''4''"
  "digit_char 5 = CHR ''5''" "digit_char 6 = CHR ''6''" "digit_char 7 = CHR ''7''"
  "digit_char 8 = CHR ''8''" "digit_char 9 = CHR ''9''"
  by (code_simp+)

lemma replicate_small:
  "replicate 2 c = [c, c]" "replicate 3 c = [c, c, c]"
  by (simp_all add: numeral_2_eq_2 numeral_3_eq_3)

lemma toISOString_examples:
  "toISOString 1900195200000 = ''2030-03-20T00:00:00.000Z''"
  "toISOString 1900074615250 = ''2030-03-18T14:30:15.250Z''"
  "toISOString 1900075500007 = ''2030-03-18T14:45:00.007Z''"
  unfolding toISOString_def civil_from_days_def Let_def
  by (simp_all add: year_string_def padStart_def digits_of_small digits_of_large digit_char_simps
      replicate_small)

lemma price_example: "calculatePrice [''v1'' \<mapsto> sedan] confirming_v1 = 60"
  by (simp add: calculatePrice_def selectedCar_def)

lemma bookingData_examples:
  "bookingData \<lparr>isOnline = b, now = 1900074615250, getCarById = [''v1'' \<mapsto> sedan], remoteAnswers = r\<rparr>
     confirming_v1 = record_1"
  "bookingData \<lparr>isOnline = b, now = 1900075500007, getCarById = [''v1'' \<mapsto> sedan], remoteAnswers = r\<rparr>
     confirming_v1 = record_2"
  by (simp_all add: bookingData_def toISOString_examples price_example)

text \<open>The item as the browser holds it after the first example submission.\<close>

lemma stored_example: \<open>stored [record_1] = ''[{"carId":"v1","pickupLocation":"Kigali","dropoffLocation":"Huye","date":"2030-03-20T00:00:00.000Z","time":"09:00","duration":3,"price":60,"createdAt":"2030-03-18T14:30:15.250Z"}]''\<close>
  by code_simp

lemma parse_stored_example: \<open>JSON_parse ''[{"carId":"v1","pickupLocation":"Kigali","dropoffLocation":"Huye","date":"2030-03-20T00:00:00.000Z","time":"09:00","duration":3,"price":60,"createdAt":"2030-03-18T14:30:15.250Z"}]''
  = Inr (JArr [JObj [(''carId'', JStr ''v1''), (''pickupLocation'', JStr ''Kigali''),
                     (''dropoffLocation'', JStr ''Huye''),
                     (''date'', JStr ''2030-03-20T00:00:00.000Z''),
                     (''time'', JStr ''09:00''), (''duration'', JNum 3), (''price'', JNum 60),
                     (''createdAt'', JStr ''2030-03-18T14:30:15.250Z'')]])\<close>
  by code_simp

section \<open>Properties of the wizard\<close>

text \<open>
  C4 (as the code has it). At the date and time step the next button advances exactly
  when a date is set, a time is chosen and the duration is positive. The step rule
  compares the date with no clock and puts no upper bound on the duration; the calendar
  and the duration select are what offer only future dates and 1 to 24 hours.
\<close>

theorem dateTime_step_rule:
  assumes "step st = 2" and "\<not> isSubmitted st"
  shows "clickNext st =
           (if date (booking st) \<noteq> None \<and> time (booking st) \<noteq> [] \<and> 0 < duration (booking st)
            then Some (st\<lparr>step := 3\<rparr>) else None)"
  using assms by (simp add: clickNext_def nextShown_def canProceed_def STEPS_def)

theorem dateTime_step_rule_witness:
  "clickNext \<lparr>step = 2, booking = draft_v1, isSubmitted = False\<rparr> = Some confirming_v1
   \<and> clickNext \<lparr>step = 2, booking = draft_v1\<lparr>duration := 0\<rparr>, isSubmitted = False\<rparr> = None"
  using dateTime_step_rule [of "\<lparr>step = 2, booking = draft_v1, isSubmitted = False\<rparr>"]
    dateTime_step_rule [of "\<lparr>step = 2, booking = draft_v1\<lparr>duration := 0\<rparr>, isSubmitted = False\<rparr>"]
  by simp

text \<open>
  C4 as stated fails: a draft whose date is 1 January 1970 (time value 0) and whose
  duration is 25 hours advances from the date and time step to the confirmation step.
\<close>

theorem dateTime_range_counterexample:
  "clickNext \<lparr>step = 2,
      booking = \<lparr>carId = ''v1'', pickupLocation = ''Kigali'', dropoffLocation = ''Huye'',
                 date = Some 0, time = ''09:00'', duration = 25\<rparr>,
      isSubmitted = False\<rparr>
   = Some \<lparr>step = 3,
      booking = \<lparr>carId = ''v1'', pickupLocation = ''Kigali'', dropoffLocation = ''Huye'',
                 date = Some 0, time = ''09:00'', duration = 25\<rparr>,
      isSubmitted = False\<rparr>"
  by (simp add: clickNext_def nextShown_def canProceed_def STEPS_def)

text \<open>
  C5 (as the code has it). At the vehicle step the next button advances exactly when
  \<open>carId\<close> is a non-empty string; the catalog is not consulted.
\<close>

theorem vehicle_step_rule:
  assumes "step st = 0" and "\<not> isSubmitted st"
  shows "clickNext st = (if carId (booking st) \<noteq> [] then Some (st\<lparr>step := 1\<rparr>) else None)"
  using assms by (simp add: clickNext_def nextShown_def canProceed_def STEPS_def)

theorem vehicle_step_rule_witness:
  "clickNext (initialState (Some ''v1'')) = Some ((initialState (Some ''v1''))\<lparr>step := 1\<rparr>)
   \<and> clickNext (initialState None) = None"
  using vehicle_step_rule [of "initialState (Some ''v1'')"] vehicle_step_rule [of "initialState None"]
  by (simp add: initialState_def initialBooking_def)

text \<open>
  C5 as stated fails: opened with \<open>?car=bogus\<close> against a catalog whose only vehicle
  is \<open>v1\<close>, the wizard advances although the catalog has no such vehicle.
\<close>

theorem unknown_vehicle_counterexample:
  "clickNext (initialState (Some ''bogus''))
     = Some \<lparr>step = 1,
          booking = \<lparr>carId = ''bogus'', pickupLocation = [], dropoffLocation = [],
                     date = None, time = [], duration = 1\<rparr>,
          isSubmitted = False\<rparr>
   \<and> selectedCar [''v1'' \<mapsto> sedan] (initialState (Some ''bogus'')) = None"
  by (simp add: clickNext_def nextShown_def canProceed_def STEPS_def initialState_def
      initialBooking_def selectedCar_def)



text \<open>
  C9 (as the code has it). Before submission, at every step after the first, the
  previous button goes one step back and changes nothing else: the draft keeps every
  field, and when the step gone back to still passes its rule, the next button returns
  to the very same state.
\<close>

theorem clickPrevious_keeps_draft:
  assumes "0 < step st" and "\<not> isSubmitted st"
  shows "clickPrevious st = Some (st\<lparr>step := step st - 1\<rparr>)
         \<and> booking (st\<lparr>step := step st - 1\<rparr>) = booking st
         \<and> isSubmitted (st\<lparr>step := step st - 1\<rparr>) = isSubmitted st
         \<and> (step st \<le> 3 \<and> canProceed (st\<lparr>step := step st - 1\<rparr>)
              \<longrightarrow> clickNext (st\<lparr>step := step st - 1\<rparr>) = Some st)"
  using assms
  by (auto simp add: clickPrevious_def previousShown_def clickNext_def nextShown_def STEPS_def)

theorem clickPrevious_keeps_draft_witness:
  "clickPrevious confirming_v1 = Some \<lparr>step = 2, booking = draft_v1, isSubmitted = False\<rparr>
   \<and> clickNext \<lparr>step = 2, booking = draft_v1, isSubmitted = False\<rparr> = Some confirming_v1"
  using clickPrevious_keeps_draft [of confirming_v1]
  by (simp add: canProceed_def)

text \<open>
  C9 as stated fails at the submitted state: the success page is returned before the
  navigation is rendered, so after submission there is no previous button.
\<close>

theorem submitted_no_previous_counterexample:
  "clickPrevious \<lparr>step = 3, booking = draft_v1, isSubmitted = True\<rparr> = None"
  by (simp add: clickPrevious_def previousShown_def)

section \<open>Properties of submitting and of the sync\<close>

text \<open>
  C3. Offline, with the store in a state the page itself has produced, \<open>handleSubmit\<close>
  returns without an exception, writes the old queue with exactly one record appended,
  sets \<open>isSubmitted\<close> and leaves the calls of the Remote Booking API as they were. The
  record carries the fields of the draft, the date as an ISO string, the price and the
  ISO string of the clock.
\<close>

theorem offline_submit_enqueues:
  assumes "\<not> isOnline e" and "holds_queue w q"
  shows "handleSubmit e (w, st)
           = Inr (setItem ''pendingBookings'' (stored (q @ [bookingData e st])) w,
                  st\<lparr>isSubmitted := True\<rparr>)
         \<and> pendingBookings (setItem ''pendingBookings'' (stored (q @ [bookingData e st])) w)
           = Inr (JArr (map json_of q @ [json_of (bookingData e st)]))
         \<and> remoteCalls (setItem ''pendingBookings'' (stored (q @ [bookingData e st])) w)
           = remoteCalls w
         \<and> rec_carId (bookingData e st) = carId (booking st)
         \<and> rec_pickupLocation (bookingData e st) = pickupLocation (booking st)
         \<and> rec_dropoffLocation (bookingData e st) = dropoffLocation (booking st)
         \<and> rec_date (bookingData e st) = map_option toISOString (date (booking st))
         \<and> rec_time (bookingData e st) = time (booking st)
         \<and> rec_duration (bookingData e st) = duration (booking st)
         \<and> rec_price (bookingData e st) = calculatePrice (getCarById e) st
         \<and> rec_createdAt (bookingData e st) = toISOString (now e)"
proof -
  let ?w' = "setItem ''pendingBookings'' (stored (q @ [bookingData e st])) w"
  have "holds_queue ?w' (q @ [bookingData e st])" by (rule holds_queue_setItem)
  then have "pendingBookings ?w' = Inr (JArr (map json_of q @ [json_of (bookingData e st)]))"
    using pendingBookings_holds by fastforce
  moreover have "remoteCalls ?w' = remoteCalls w" by (simp add: setItem_def)
  ultimately show ?thesis
    using handleSubmit_offline [OF assms] by (simp add: bookingData_def)
qed

text \<open>
  The scenario of C3: three hours of a vehicle at 20 per hour, submitted offline into an
  empty store, leaves one record with duration 3 and price 60.
\<close>

theorem offline_submit_enqueues_witness:
  "handleSubmit
     \<lparr>isOnline = False, now = 1900074615250, getCarById = [''v1'' \<mapsto> sedan],
      remoteAnswers = []\<rparr>
     (empty_world, confirming_v1)
     = Inr (\<lparr>localStorage = [''pendingBookings'' \<mapsto> stored [record_1]], console = [],
             remoteCalls = []\<rparr>,
            \<lparr>step = 3, booking = draft_v1, isSubmitted = True\<rparr>)
   \<and> pendingBookings \<lparr>localStorage = [''pendingBookings'' \<mapsto> stored [record_1]], console = [],
                       remoteCalls = []\<rparr>
     = Inr (JArr [JObj [(''carId'', JStr ''v1''), (''pickupLocation'', JStr ''Kigali''),
                        (''dropoffLocation'', JStr ''Huye''),
                        (''date'', JStr ''2030-03-20T00:00:00.000Z''),
                        (''time'', JStr ''09:00''), (''duration'', JNum 3), (''price'', JNum 60),
                        (''createdAt'', JStr ''2030-03-18T14:30:15.250Z'')]])"
proof -
  let ?e = "\<lparr>isOnline = False, now = 1900074615250, getCarById = [''v1'' \<mapsto> sedan], remoteAnswers = []\<rparr>"
  have off: "\<not> isOnline ?e" by simp
  have hq: "holds_queue empty_world []" by (simp add: holds_queue_def)
  note inst = offline_submit_enqueues [OF off hq, of confirming_v1]
  have rec: "bookingData ?e confirming_v1 = record_1" by (rule bookingData_examples)
  have w: "setItem ''pendingBookings'' (stored [record_1]) empty_world
             = \<lparr>localStorage = [''pendingBookings'' \<mapsto> stored [record_1]], console = [],
                remoteCalls = []\<rparr>"
    by (simp add: setItem_def)
  have j: "json_of record_1
             = JObj [(''carId'', JStr ''v1''), (''pickupLocation'', JStr ''Kigali''),
                     (''dropoffLocation'', JStr ''Huye''),
                     (''date'', JStr ''2030-03-20T00:00:00.000Z''),
                     (''time'', JStr ''09:00''), (''duration'', JNum 3), (''price'', JNum 60),
                     (''createdAt'', JStr ''2030-03-18T14:30:15.250Z'')]"
    by (simp add: json_of_def)
  from inst [THEN conjunct1] have 1: "handleSubmit ?e (empty_world, confirming_v1)
     = Inr (\<lparr>localStorage = [''pendingBookings'' \<mapsto> stored [record_1]], console = [],
             remoteCalls = []\<rparr>,
            \<lparr>step = 3, booking = draft_v1, isSubmitted = True\<rparr>)"
    unfolding rec by (simp add: w)
  from inst [THEN conjunct2, THEN conjunct1]
  have 2: "pendingBookings \<lparr>localStorage = [''pendingBookings'' \<mapsto> stored [record_1]],
                             console = [], remoteCalls = []\<rparr>
             = Inr (JArr [json_of record_1])"
    unfolding rec by (simp add: w)
  from 1 2 show ?thesis unfolding j by (rule conjI)
qed

text \<open>
  C10. Online, \<open>handleSubmit\<close> changes nothing in the world (the store, the console
  and the calls of the Remote Booking API stay as they are) and sets \<open>isSubmitted\<close>,
  whatever the state of the store and whatever the Remote Booking API would answer.
\<close>

theorem online_submit_discards:
  assumes "isOnline e"
  shows "handleSubmit e (w, st) = Inr (w, st\<lparr>isSubmitted := True\<rparr>)
         \<and> handleSubmit (e\<lparr>remoteAnswers := r\<rparr>) (w, st) = handleSubmit e (w, st)"
  using assms by (simp add: handleSubmit_online)

theorem online_submit_discards_witness:
  "handleSubmit
     \<lparr>isOnline = True, now = 1900075500007, getCarById = [''v1'' \<mapsto> sedan],
      remoteAnswers = [Success]\<rparr>
     (\<lparr>localStorage = [''pendingBookings'' \<mapsto> stored [record_1]], console = [], remoteCalls = []\<rparr>,
      confirming_v1)
     = Inr (\<lparr>localStorage = [''pendingBookings'' \<mapsto> stored [record_1]], console = [],
             remoteCalls = []\<rparr>,
            \<lparr>step = 3, booking = draft_v1, isSubmitted = True\<rparr>)"
  using online_submit_discards
    [of "\<lparr>isOnline = True, now = 1900075500007, getCarById = [''v1'' \<mapsto> sedan],
          remoteAnswers = [Success]\<rparr>"
        "\<lparr>localStorage = [''pendingBookings'' \<mapsto> stored [record_1]], console = [], remoteCalls = []\<rparr>"
        confirming_v1]
  by simp

text \<open>
  C2 (as the code has it). Online, when the Remote Booking API would reject the record,
  \<open>handleSubmit\<close> still returns without an exception, sets \<open>isSubmitted\<close> and leaves
  the world, and with it the queue, as it is: the API is not asked.
\<close>

theorem online_rejection_ignored:
  assumes "isOnline e" and "remoteAnswers e = Rejected reason # later"
  shows "handleSubmit e (w, st) = Inr (w, st\<lparr>isSubmitted := True\<rparr>)"
  using assms(1) by (rule handleSubmit_online)

theorem online_rejection_ignored_witness:
  "handleSubmit
     \<lparr>isOnline = True, now = 1900074615250, getCarById = [''v1'' \<mapsto> sedan],
      remoteAnswers = [Rejected ''vehicle no longer available'']\<rparr>
     (\<lparr>localStorage = [''pendingBookings'' \<mapsto> stored [record_1]], console = [], remoteCalls = []\<rparr>,
      confirming_v1)
     = Inr (\<lparr>localStorage = [''pendingBookings'' \<mapsto> stored [record_1]], console = [],
             remoteCalls = []\<rparr>,
            \<lparr>step = 3, booking = draft_v1, isSubmitted = True\<rparr>)"
  using online_rejection_ignored
    [of "\<lparr>isOnline = True, now = 1900074615250, getCarById = [''v1'' \<mapsto> sedan],
          remoteAnswers = [Rejected ''vehicle no longer available'']\<rparr>"
        "''vehicle no longer available''" "[]"
        "\<lparr>localStorage = [''pendingBookings'' \<mapsto> stored [record_1]], console = [], remoteCalls = []\<rparr>"
        confirming_v1]
  by simp

text \<open>
  C2 as stated fails: against a Remote Booking API that would reject the booking, an
  online submission at the confirmation step reports no failure and reaches the
  submitted state.
\<close>

theorem online_rejection_counterexample:
  "handleSubmit
     \<lparr>isOnline = True, now = 1900074615250, getCarById = [''v1'' \<mapsto> sedan],
      remoteAnswers = [Rejected ''vehicle no longer available'']\<rparr>
     (empty_world, confirming_v1)
     = Inr (empty_world, \<lparr>step = 3, booking = draft_v1, isSubmitted = True\<rparr>)"
  by (simp add: handleSubmit_def Let_def)

text \<open>
  C1 (as the code has it). A sync that runs online over a non-empty queue logs the
  queued records to the console, in queue order, and then replaces the item by \<open>[]\<close>:
  every record leaves the queue at once, and the Remote Booking API receives no call.
\<close>

theorem drain_empties_queue:
  assumes "isOnline e" and "holds_queue w q" and "q \<noteq> []"
  shows "syncEffect e w
           = Inr (setItem ''pendingBookings'' ''[]''
                    (w\<lparr>console := console w @ [(''Syncing pending bookings:'', JArr (map json_of q))]\<rparr>))
         \<and> pendingBookings
              (setItem ''pendingBookings'' ''[]''
                 (w\<lparr>console := console w @ [(''Syncing pending bookings:'', JArr (map json_of q))]\<rparr>))
           = Inr (JArr [])
         \<and> remoteCalls
              (setItem ''pendingBookings'' ''[]''
                 (w\<lparr>console := console w @ [(''Syncing pending bookings:'', JArr (map json_of q))]\<rparr>))
           = remoteCalls w"
proof -
  let ?w' = "setItem ''pendingBookings'' ''[]''
               (w\<lparr>console := console w @ [(''Syncing pending bookings:'', JArr (map json_of q))]\<rparr>)"
  have "holds_queue ?w' []" by (simp add: holds_queue_def setItem_def stored_Nil)
  then have "pendingBookings ?w' = Inr (JArr [])"
    using pendingBookings_holds by fastforce
  moreover have "remoteCalls ?w' = remoteCalls w" by (simp add: setItem_def)
  ultimately show ?thesis using syncEffect_nonempty [OF assms] by simp
qed

theorem drain_empties_queue_witness:
  "syncEffect \<lparr>isOnline = True, now = 1900080000000, getCarById = [''v1'' \<mapsto> sedan], remoteAnswers = [Success, Success]\<rparr>
     \<lparr>localStorage = [''pendingBookings'' \<mapsto> stored [record_1, record_2]], console = [],
      remoteCalls = []\<rparr>
   = Inr \<lparr>localStorage = [''pendingBookings'' \<mapsto> ''[]''],
          console = [(''Syncing pending bookings:'', JArr [json_of record_1, json_of record_2])],
          remoteCalls = []\<rparr>"
proof -
  let ?e = "\<lparr>isOnline = True, now = 1900080000000, getCarById = [''v1'' \<mapsto> sedan],
             remoteAnswers = [Success, Success]\<rparr>"
  let ?w = "\<lparr>localStorage = [''pendingBookings'' \<mapsto> stored [record_1, record_2]],
             console = [], remoteCalls = []\<rparr>"
  have on: "isOnline ?e" by simp
  have hq: "holds_queue ?w [record_1, record_2]" by (simp add: holds_queue_def)
  have ne: "[record_1, record_2] \<noteq> []" by simp
  from drain_empties_queue [OF on hq ne, THEN conjunct1]
  show ?thesis by (simp add: setItem_def)
qed

text \<open>
  C1 as stated fails: with two records queued and a Remote Booking API that would reject
  the first, the queue is empty after the sync.
\<close>

theorem drain_rejected_counterexample:
  "syncEffect
     \<lparr>isOnline = True, now = 1900080000000, getCarById = [''v1'' \<mapsto> sedan],
      remoteAnswers = [Rejected ''vehicle no longer available'', Success]\<rparr>
     \<lparr>localStorage = [''pendingBookings'' \<mapsto> stored [record_1, record_2]], console = [],
      remoteCalls = []\<rparr>
   = Inr \<lparr>localStorage = [''pendingBookings'' \<mapsto> ''[]''],
          console = [(''Syncing pending bookings:'', JArr [json_of record_1, json_of record_2])],
          remoteCalls = []\<rparr>
   \<and> pendingBookings
       \<lparr>localStorage = [''pendingBookings'' \<mapsto> ''[]''],
        console = [(''Syncing pending bookings:'', JArr [json_of record_1, json_of record_2])],
        remoteCalls = []\<rparr>
     = Inr (JArr [])"
proof -
  let ?w = "\<lparr>localStorage = [''pendingBookings'' \<mapsto> stored [record_1, record_2]],
             console = [], remoteCalls = []\<rparr>"
  let ?w' = "\<lparr>localStorage = [''pendingBookings'' \<mapsto> ''[]''],
          console = [(''Syncing pending bookings:'', JArr [json_of record_1, json_of record_2])],
          remoteCalls = []\<rparr>"
  have hq: "holds_queue ?w [record_1, record_2]" by (simp add: holds_queue_def)
  have a: "syncEffect
     \<lparr>isOnline = True, now = 1900080000000, getCarById = [''v1'' \<mapsto> sedan],
      remoteAnswers = [Rejected ''vehicle no longer available'', Success]\<rparr> ?w = Inr ?w'"
    using syncEffect_nonempty [OF _ hq] by (simp add: setItem_def)
  have "holds_queue ?w' []" by (simp add: holds_queue_def stored_Nil)
  then have b: "pendingBookings ?w' = Inr (JArr [])"
    using pendingBookings_holds by fastforce
  from a b show ?thesis by (rule conjI)
qed

text \<open>
  C7 (as the code has it). The queue is kept in the order of submission: an offline
  submission appends its object after all objects already queued, whatever the clock
  says, and the sync hands the whole array over, in that order, in one call of
  \<open>console.log\<close>. Each object carries the clock of its own submission as
  \<open>createdAt\<close>; nothing sorts by it.
\<close>

theorem queue_keeps_submission_order:
  assumes "holds_queue w q" and "\<not> isOnline e1" and "\<not> isOnline e2" and "isOnline e3"
  shows "\<exists>w1 w2 w3 o1 o2.
           handleSubmit e1 (w, st1) = Inr (w1, st1\<lparr>isSubmitted := True\<rparr>)
         \<and> pendingBookings w1 = Inr (JArr (map json_of q @ [JObj o1]))
         \<and> handleSubmit e2 (w1, st2) = Inr (w2, st2\<lparr>isSubmitted := True\<rparr>)
         \<and> pendingBookings w2 = Inr (JArr (map json_of q @ [JObj o1, JObj o2]))
         \<and> syncEffect e3 w2 = Inr w3
         \<and> console w3
           = console w @ [(''Syncing pending bookings:'', JArr (map json_of q @ [JObj o1, JObj o2]))]
         \<and> pendingBookings w3 = Inr (JArr [])
         \<and> JObj o1 = json_of (bookingData e1 st1)
         \<and> JObj o2 = json_of (bookingData e2 st2)
         \<and> map_of o1 ''createdAt'' = Some (JStr (toISOString (now e1)))
         \<and> map_of o2 ''createdAt'' = Some (JStr (toISOString (now e2)))"
proof -
  let ?r1 = "bookingData e1 st1" and ?r2 = "bookingData e2 st2"
  let ?w1 = "setItem ''pendingBookings'' (stored (q @ [?r1])) w"
  let ?w2 = "setItem ''pendingBookings'' (stored ((q @ [?r1]) @ [?r2])) ?w1"
  let ?w3 = "setItem ''pendingBookings'' ''[]''
               (?w2\<lparr>console := console ?w2
                  @ [(''Syncing pending bookings:'', JArr (map json_of (q @ [?r1, ?r2])))]\<rparr>)"
  obtain o1 where o1: "json_of ?r1 = JObj o1" by (simp add: json_of_def)
  obtain o2 where o2: "json_of ?r2 = JObj o2" by (simp add: json_of_def)
  have 1: "handleSubmit e1 (w, st1) = Inr (?w1, st1\<lparr>isSubmitted := True\<rparr>)"
    by (rule handleSubmit_offline [OF assms(2,1)])
  have h1: "holds_queue ?w1 (q @ [?r1])" by (rule holds_queue_setItem)
  have p1: "pendingBookings ?w1 = Inr (JArr (map json_of q @ [JObj o1]))"
    using pendingBookings_holds [OF h1] by (simp add: o1)
  have 2: "handleSubmit e2 (?w1, st2) = Inr (?w2, st2\<lparr>isSubmitted := True\<rparr>)"
    by (rule handleSubmit_offline [OF assms(3) h1])
  have "holds_queue ?w2 ((q @ [?r1]) @ [?r2])" by (rule holds_queue_setItem)
  then have h2: "holds_queue ?w2 (q @ [?r1, ?r2])" by simp
  have p2: "pendingBookings ?w2 = Inr (JArr (map json_of q @ [JObj o1, JObj o2]))"
    using pendingBookings_holds [OF h2] by (simp add: o1 o2)
  have 3: "syncEffect e3 ?w2 = Inr ?w3"
    using syncEffect_nonempty [OF assms(4) h2] by simp
  have c: "console ?w3 = console w @ [(''Syncing pending bookings:'',
                           JArr (map json_of q @ [JObj o1, JObj o2]))]"
    by (simp add: setItem_def o1 o2)
  have "holds_queue ?w3 []" by (simp add: holds_queue_def setItem_def stored_Nil)
  then have p3: "pendingBookings ?w3 = Inr (JArr [])"
    using pendingBookings_holds by fastforce
  have c1: "rec_createdAt ?r1 = toISOString (now e1)" and c2: "rec_createdAt ?r2 = toISOString (now e2)"
    by (simp_all add: bookingData_def)
  have t1: "map_of o1 ''createdAt'' = Some (JStr (toISOString (now e1)))"
    using createdAt_json_of [of ?r1] unfolding o1 c1 by simp
  have t2: "map_of o2 ''createdAt'' = Some (JStr (toISOString (now e2)))"
    using createdAt_json_of [of ?r2] unfolding o2 c2 by simp
  from 1 p1 2 p2 3 c p3 o1 o2 t1 t2 show ?thesis by metis
qed

text \<open>
  Two offline submissions at 14:30:15.250 and 14:45:00.007, then a sync: the object
  queued first is logged first.
\<close>

theorem queue_keeps_submission_order_witness:
  "\<exists>w1 w2 w3 o1 o2.
     handleSubmit
       \<lparr>isOnline = False, now = 1900074615250, getCarById = [''v1'' \<mapsto> sedan], remoteAnswers = []\<rparr>
       (empty_world, confirming_v1)
       = Inr (w1, \<lparr>step = 3, booking = draft_v1, isSubmitted = True\<rparr>)
   \<and> pendingBookings w1 = Inr (JArr [JObj o1])
   \<and> handleSubmit
       \<lparr>isOnline = False, now = 1900075500007, getCarById = [''v1'' \<mapsto> sedan], remoteAnswers = []\<rparr>
       (w1, confirming_v1)
       = Inr (w2, \<lparr>step = 3, booking = draft_v1, isSubmitted = True\<rparr>)
   \<and> pendingBookings w2 = Inr (JArr [JObj o1, JObj o2])
   \<and> syncEffect
       \<lparr>isOnline = True, now = 1900080000000, getCarById = [''v1'' \<mapsto> sedan], remoteAnswers = []\<rparr> w2
       = Inr w3
   \<and> console w3 = [(''Syncing pending bookings:'', JArr [JObj o1, JObj o2])]
   \<and> pendingBookings w3 = Inr (JArr [])
   \<and> JObj o1 = json_of record_1
   \<and> JObj o2 = json_of record_2
   \<and> map_of o1 ''createdAt'' = Some (JStr ''2030-03-18T14:30:15.250Z'')
   \<and> map_of o2 ''createdAt'' = Some (JStr ''2030-03-18T14:45:00.007Z'')"
proof -
  let ?e1 = "\<lparr>isOnline = False, now = 1900074615250, getCarById = [''v1'' \<mapsto> sedan], remoteAnswers = []\<rparr>"
  let ?e2 = "\<lparr>isOnline = False, now = 1900075500007, getCarById = [''v1'' \<mapsto> sedan], remoteAnswers = []\<rparr>"
  let ?e3 = "\<lparr>isOnline = True, now = 1900080000000, getCarById = [''v1'' \<mapsto> sedan], remoteAnswers = []\<rparr>"
  have hq: "holds_queue empty_world []" by (simp add: holds_queue_def)
  have r1: "bookingData ?e1 confirming_v1 = record_1"
    and r2: "bookingData ?e2 confirming_v1 = record_2"
    by (rule bookingData_examples)+
  from queue_keeps_submission_order [OF hq, of ?e1 ?e2 ?e3 confirming_v1 confirming_v1]
  show ?thesis unfolding r1 r2 by (simp add: toISOString_examples)
qed

text \<open>
  C7 as stated fails when the clock steps back: a submission stamped 14:45:00.007 is
  followed by one stamped 14:30:15.250, and both the store and the sync hold the object
  with the later \<open>createdAt\<close> first.
\<close>

theorem clock_steps_back_counterexample:
  "handleSubmit
     \<lparr>isOnline = False, now = 1900075500007, getCarById = [''v1'' \<mapsto> sedan], remoteAnswers = []\<rparr>
     (empty_world, confirming_v1)
     = Inr (\<lparr>localStorage = [''pendingBookings'' \<mapsto> stored [record_2]], console = [],
             remoteCalls = []\<rparr>,
            \<lparr>step = 3, booking = draft_v1, isSubmitted = True\<rparr>)
   \<and> handleSubmit
     \<lparr>isOnline = False, now = 1900074615250, getCarById = [''v1'' \<mapsto> sedan], remoteAnswers = []\<rparr>
     (\<lparr>localStorage = [''pendingBookings'' \<mapsto> stored [record_2]], console = [], remoteCalls = []\<rparr>,
      confirming_v1)
     = Inr (\<lparr>localStorage = [''pendingBookings'' \<mapsto> stored [record_2, record_1]], console = [],
             remoteCalls = []\<rparr>,
            \<lparr>step = 3, booking = draft_v1, isSubmitted = True\<rparr>)
   \<and> syncEffect
     \<lparr>isOnline = True, now = 1900080000000, getCarById = [''v1'' \<mapsto> sedan], remoteAnswers = []\<rparr>
     \<lparr>localStorage = [''pendingBookings'' \<mapsto> stored [record_2, record_1]], console = [],
      remoteCalls = []\<rparr>
     = Inr \<lparr>localStorage = [''pendingBookings'' \<mapsto> ''[]''],
            console = [(''Syncing pending bookings:'', JArr [json_of record_2, json_of record_1])],
            remoteCalls = []\<rparr>"
proof -
  let ?e1 = "\<lparr>isOnline = False, now = 1900075500007, getCarById = [''v1'' \<mapsto> sedan], remoteAnswers = []\<rparr>"
  let ?e2 = "\<lparr>isOnline = False, now = 1900074615250, getCarById = [''v1'' \<mapsto> sedan], remoteAnswers = []\<rparr>"
  let ?w1 = "\<lparr>localStorage = [''pendingBookings'' \<mapsto> stored [record_2]], console = [], remoteCalls = []\<rparr>"
  let ?w2 = "\<lparr>localStorage = [''pendingBookings'' \<mapsto> stored [record_2, record_1]], console = [],
              remoteCalls = []\<rparr>"
  have r1: "bookingData ?e1 confirming_v1 = record_2"
    and r2: "bookingData ?e2 confirming_v1 = record_1"
    by (rule bookingData_examples)+
  have h0: "holds_queue empty_world []" by (simp add: holds_queue_def)
  have h1: "holds_queue ?w1 [record_2]" by (simp add: holds_queue_def)
  have h2: "holds_queue ?w2 [record_2, record_1]" by (simp add: holds_queue_def)
  have a: "handleSubmit ?e1 (empty_world, confirming_v1)
             = Inr (?w1, \<lparr>step = 3, booking = draft_v1, isSubmitted = True\<rparr>)"
    using handleSubmit_offline [OF _ h0, of ?e1 confirming_v1] unfolding r1
    by (simp add: setItem_def)
  have b: "handleSubmit ?e2 (?w1, confirming_v1)
             = Inr (?w2, \<lparr>step = 3, booking = draft_v1, isSubmitted = True\<rparr>)"
    using handleSubmit_offline [OF _ h1, of ?e2 confirming_v1] unfolding r2
    by (simp add: setItem_def)
  have c: "syncEffect
     \<lparr>isOnline = True, now = 1900080000000, getCarById = [''v1'' \<mapsto> sedan], remoteAnswers = []\<rparr> ?w2
     = Inr \<lparr>localStorage = [''pendingBookings'' \<mapsto> ''[]''],
            console = [(''Syncing pending bookings:'', JArr [json_of record_2, json_of record_1])],
            remoteCalls = []\<rparr>"
    using syncEffect_nonempty [OF _ h2] by (simp add: setItem_def)
  from a b c show ?thesis by (intro conjI)
qed

text \<open>
  C8. Written to the store as the page writes it and read back as the page reads it,
  a queue of booking records comes back as the same array of the same objects, and the
  object of a record determines each of its eight fields, an absent date included.
\<close>

theorem store_roundtrip:
  "pendingBookings (setItem ''pendingBookings'' (JSON_stringify (JArr (map json_of q))) w)
     = Inr (JArr (map json_of q))
   \<and> (map json_of q = map json_of q') = (q = q')"
  using pendingBookings_holds [OF holds_queue_setItem, of q w] map_json_of_inject
  by (simp add: stored_def)

text \<open>The round trip of the item that the first example submission leaves in the store.\<close>

theorem store_roundtrip_witness:
  "pendingBookings
     \<lparr>localStorage = [''pendingBookings'' \<mapsto> stored [record_1]], console = [], remoteCalls = []\<rparr>
   = Inr (JArr [json_of record_1])"
  using store_roundtrip [of "[record_1]" empty_world] by (simp add: setItem_def stored_def)

end
